theory Spec2Isabelle
  imports Main
begin

section \<open>Markers shared by all games (Game.h)\<close>

text \<open>
  The C++ type \<open>int\<close> is modelled by HOL's \<open>int\<close>. Cell markers and scores are the
  constants below; the only arithmetic of the program is on small indices, on the search
  depth (below 999999) and on the stick counter, and C++ leaves signed overflow
  undefined, so no wrap-around is part of the program's behaviour.
\<close>

definition AI :: int where "AI = - 1"
definition PLAYER :: int where "PLAYER = 1"
definition EMPTY :: int where "EMPTY = 0"

text \<open>\<open>std::numeric_limits<int>::min()\<close> and \<open>max()\<close> for a 32-bit \<open>int\<close>.\<close>

definition INT_MIN :: int where "INT_MIN = - 2147483648"
definition INT_MAX :: int where "INT_MAX = 2147483647"

text \<open>The expression \<open>(currentPlayer == PLAYER) ? AI : PLAYER\<close> used by every variant.\<close>

definition switchPlayer :: "int \<Rightarrow> int" where
  "switchPlayer p = (if p = PLAYER then AI else PLAYER)"

section \<open>SticksGame\<close>

definition STICKS_NUMBER :: int where "STICKS_NUMBER = 21"

record SticksGame =
  stk_currentPlayer :: int
  remainingSticks :: int

definition stk_init :: "bool \<Rightarrow> SticksGame" where
  "stk_init userIsStarting =
     \<lparr>stk_currentPlayer = (if userIsStarting then PLAYER else AI),
      remainingSticks = STICKS_NUMBER\<rparr>"

definition stk_getCurrentPlayer :: "SticksGame \<Rightarrow> int" where
  "stk_getCurrentPlayer s = stk_currentPlayer s"

definition stk_isTerminal :: "SticksGame \<Rightarrow> bool" where
  "stk_isTerminal s = (remainingSticks s \<le> 0)"

text \<open>The loop \<open>for (numSticks = 1; numSticks <= 3 && numSticks <= remainingSticks; ++numSticks)\<close>.\<close>

function stk_moves_loop :: "int \<Rightarrow> int \<Rightarrow> int list" where
  "stk_moves_loop remaining numSticks =
     (if numSticks \<le> 3 \<and> numSticks \<le> remaining
      then numSticks # stk_moves_loop remaining (numSticks + 1)
      else [])"
  by pat_completeness auto
termination
  by (relation "measure (\<lambda>(remaining, numSticks). nat (4 - numSticks))") auto

declare stk_moves_loop.simps [simp del]

definition stk_getAvailableMoves :: "SticksGame \<Rightarrow> int list" where
  "stk_getAvailableMoves s = stk_moves_loop (remainingSticks s) 1"

definition stk_makeMove :: "SticksGame \<Rightarrow> int \<Rightarrow> SticksGame" where
  "stk_makeMove s numSticks =
     s\<lparr>remainingSticks := remainingSticks s - numSticks,
       stk_currentPlayer := switchPlayer (stk_currentPlayer s)\<rparr>"

definition stk_undoMove :: "SticksGame \<Rightarrow> int \<Rightarrow> SticksGame" where
  "stk_undoMove s numSticks =
     s\<lparr>remainingSticks := remainingSticks s + numSticks,
       stk_currentPlayer := switchPlayer (stk_currentPlayer s)\<rparr>"

definition stk_evaluate :: "SticksGame \<Rightarrow> int" where
  "stk_evaluate s =
     (if remainingSticks s = 0 then (if stk_currentPlayer s = PLAYER then - 10 else 10)
      else 0)"

definition stk_getWinner :: "SticksGame \<Rightarrow> int" where
  "stk_getWinner s =
     (if remainingSticks s = 0 then (if stk_currentPlayer s = PLAYER then PLAYER else AI)
      else 0)"

definition stk_checkInput :: "SticksGame \<Rightarrow> int \<Rightarrow> bool" where
  "stk_checkInput s input = (input \<ge> 1 \<and> input \<le> 3 \<and> input \<le> remainingSticks s)"

section \<open>Boards\<close>

text \<open>
  A board \<open>int board[H][W]\<close> is the list of its rows. \<open>cell\<close> reads \<open>board[row][col]\<close>
  and \<open>set_cell\<close> is the assignment \<open>board[row][col] = v\<close>; the program evaluates both
  only behind a range check or with loop indices that are in range.
\<close>

type_synonym board = "int list list"

definition cell :: "board \<Rightarrow> int \<Rightarrow> int \<Rightarrow> int" where
  "cell b row col = b ! nat row ! nat col"

definition set_cell :: "board \<Rightarrow> int \<Rightarrow> int \<Rightarrow> int \<Rightarrow> board" where
  "set_cell b row col v = b[nat row := (b ! nat row)[nat col := v]]"

section \<open>TicTacToe\<close>

definition BOARD_SIZE :: int where "BOARD_SIZE = 3"

record TicTacToe =
  ttt_board :: board
  ttt_currentPlayer :: int

definition ttt_init :: "bool \<Rightarrow> TicTacToe" where
  "ttt_init userIsStarting =
     \<lparr>ttt_board = replicate (nat BOARD_SIZE) (replicate (nat BOARD_SIZE) EMPTY),
      ttt_currentPlayer = (if userIsStarting then PLAYER else AI)\<rparr>"

definition ttt_getCurrentPlayer :: "TicTacToe \<Rightarrow> int" where
  "ttt_getCurrentPlayer s = ttt_currentPlayer s"

text \<open>The two nested loops over \<open>i\<close> and \<open>j\<close>, appending \<open>i * BOARD_SIZE + j\<close> for empty cells.\<close>

definition ttt_getAvailableMoves :: "TicTacToe \<Rightarrow> int list" where
  "ttt_getAvailableMoves s =
     [i * BOARD_SIZE + j.
        i \<leftarrow> [0..BOARD_SIZE - 1], j \<leftarrow> [0..BOARD_SIZE - 1], cell (ttt_board s) i j = EMPTY]"

text \<open>
  \<open>/\<close> and \<open>%\<close> are evaluated only when \<open>cellIndex >= 0\<close> (the conjunction short-circuits),
  where C++ division agrees with \<open>div\<close> and \<open>mod\<close>.
\<close>

definition ttt_makeMove :: "TicTacToe \<Rightarrow> int \<Rightarrow> TicTacToe" where
  "ttt_makeMove s cellIndex =
     (if cellIndex \<ge> 0 \<and> cellIndex < BOARD_SIZE * BOARD_SIZE
         \<and> cell (ttt_board s) (cellIndex div BOARD_SIZE) (cellIndex mod BOARD_SIZE) = EMPTY
      then s\<lparr>ttt_board := set_cell (ttt_board s) (cellIndex div BOARD_SIZE)
                             (cellIndex mod BOARD_SIZE) (ttt_currentPlayer s),
             ttt_currentPlayer := switchPlayer (ttt_currentPlayer s)\<rparr>
      else s)"

definition ttt_undoMove :: "TicTacToe \<Rightarrow> int \<Rightarrow> TicTacToe" where
  "ttt_undoMove s cellIndex =
     (if cellIndex \<ge> 0 \<and> cellIndex < BOARD_SIZE * BOARD_SIZE
         \<and> cell (ttt_board s) (cellIndex div BOARD_SIZE) (cellIndex mod BOARD_SIZE) \<noteq> EMPTY
      then s\<lparr>ttt_board := set_cell (ttt_board s) (cellIndex div BOARD_SIZE)
                             (cellIndex mod BOARD_SIZE) EMPTY,
             ttt_currentPlayer := switchPlayer (ttt_currentPlayer s)\<rparr>
      else s)"

text \<open>
  \<open>getWinner\<close>: the loop over the three rows and the loop over the three columns return
  at the first line of three equal non-empty markers (\<open>find\<close> is that first match), then
  the two diagonals are tested.
\<close>

definition ttt_getWinner :: "TicTacToe \<Rightarrow> int" where
  "ttt_getWinner s =
     (let b = ttt_board s in
      case find (\<lambda>i. cell b i 0 \<noteq> EMPTY \<and> cell b i 0 = cell b i 1 \<and> cell b i 1 = cell b i 2)
             [0..BOARD_SIZE - 1] of
        Some i \<Rightarrow> cell b i 0
      | None \<Rightarrow>
         (case find (\<lambda>j. cell b 0 j \<noteq> EMPTY \<and> cell b 0 j = cell b 1 j \<and> cell b 1 j = cell b 2 j)
                 [0..BOARD_SIZE - 1] of
            Some j \<Rightarrow> cell b 0 j
          | None \<Rightarrow>
             if cell b 0 0 \<noteq> EMPTY \<and> cell b 0 0 = cell b 1 1 \<and> cell b 1 1 = cell b 2 2
             then cell b 0 0
             else if cell b 0 2 \<noteq> EMPTY \<and> cell b 0 2 = cell b 1 1 \<and> cell b 1 1 = cell b 2 0
             then cell b 0 2
             else 0))"

definition ttt_isTerminal :: "TicTacToe \<Rightarrow> bool" where
  "ttt_isTerminal s = (ttt_getWinner s \<noteq> 0 \<or> ttt_getAvailableMoves s = [])"

definition ttt_evaluate :: "TicTacToe \<Rightarrow> int" where
  "ttt_evaluate s =
     (let winner = ttt_getWinner s in
      if winner = AI then 10 else if winner = PLAYER then - 10 else 0)"

definition ttt_checkInput :: "TicTacToe \<Rightarrow> int \<Rightarrow> bool" where
  "ttt_checkInput s input =
     (input \<ge> 0 \<and> input < BOARD_SIZE * BOARD_SIZE
      \<and> cell (ttt_board s) (input div BOARD_SIZE) (input mod BOARD_SIZE) = EMPTY)"

section \<open>Connect4\<close>

definition BOARD_LENGTH :: int where "BOARD_LENGTH = 7"
definition BOARD_HEIGHT :: int where "BOARD_HEIGHT = 6"

record Connect4 =
  c4_board :: board
  c4_currentPlayer :: int

text \<open>The member initialiser \<open>board()\<close> zeroes the array.\<close>

definition c4_init :: "bool \<Rightarrow> Connect4" where
  "c4_init userIsStarting =
     \<lparr>c4_board = replicate (nat BOARD_HEIGHT) (replicate (nat BOARD_LENGTH) 0),
      c4_currentPlayer = (if userIsStarting then PLAYER else AI)\<rparr>"

definition c4_getCurrentPlayer :: "Connect4 \<Rightarrow> int" where
  "c4_getCurrentPlayer s = c4_currentPlayer s"

definition c4_getAvailableMoves :: "Connect4 \<Rightarrow> int list" where
  "c4_getAvailableMoves s = [col. col \<leftarrow> [0..BOARD_LENGTH - 1], cell (c4_board s) 0 col = EMPTY]"

text \<open>The loop \<open>for (row = BOARD_HEIGHT - 1; row >= 0; --row)\<close> of \<open>makeMove\<close>, with its \<open>break\<close>.\<close>

function c4_makeMove_loop :: "Connect4 \<Rightarrow> int \<Rightarrow> int \<Rightarrow> Connect4" where
  "c4_makeMove_loop s col row =
     (if row \<ge> 0
      then (if cell (c4_board s) row col = EMPTY
            then s\<lparr>c4_board := set_cell (c4_board s) row col (c4_currentPlayer s),
                   c4_currentPlayer := switchPlayer (c4_currentPlayer s)\<rparr>
            else c4_makeMove_loop s col (row - 1))
      else s)"
  by pat_completeness auto
termination
  by (relation "measure (\<lambda>(s, col, row). nat (row + 1))") auto

declare c4_makeMove_loop.simps [simp del]

text \<open>
  \<open>makeMove\<close> and \<open>undoMove\<close> index the array with \<open>col\<close> unchecked. A column outside
  \<open>0 .. BOARD_LENGTH - 1\<close> is an access outside the array, for which C++ defines no
  behaviour: the model gives no value there (\<open>undefined\<close>), so nothing can be proved
  about such a call.
\<close>

definition c4_makeMove :: "Connect4 \<Rightarrow> int \<Rightarrow> Connect4" where
  "c4_makeMove s col =
     (if 0 \<le> col \<and> col < BOARD_LENGTH then c4_makeMove_loop s col (BOARD_HEIGHT - 1)
      else undefined)"

text \<open>
  The loop \<open>for (auto & row : board)\<close> of \<open>undoMove\<close> visits the rows from the top
  (row 0) down: the first cell of the column that is not empty is cleared.
\<close>

function c4_undoMove_loop :: "Connect4 \<Rightarrow> int \<Rightarrow> int \<Rightarrow> Connect4" where
  "c4_undoMove_loop s col row =
     (if row < BOARD_HEIGHT
      then (if cell (c4_board s) row col \<noteq> EMPTY
            then s\<lparr>c4_board := set_cell (c4_board s) row col EMPTY,
                   c4_currentPlayer := switchPlayer (c4_currentPlayer s)\<rparr>
            else c4_undoMove_loop s col (row + 1))
      else s)"
  by pat_completeness auto
termination
  by (relation "measure (\<lambda>(s, col, row). nat (BOARD_HEIGHT - row))") auto

declare c4_undoMove_loop.simps [simp del]

definition c4_undoMove :: "Connect4 \<Rightarrow> int \<Rightarrow> Connect4" where
  "c4_undoMove s col =
     (if 0 \<le> col \<and> col < BOARD_LENGTH then c4_undoMove_loop s col 0 else undefined)"

definition directions :: "(int \<times> int) list" where
  "directions = [(0, 1), (1, 0), (1, 1), (- 1, 1)]"

text \<open>
  The innermost loop of \<open>getWinner\<close>, \<open>for (k = 1; k < 4; ++k)\<close>: \<open>count\<close> grows while the
  next cell in the direction is on the board and equal to the start cell, and the loop
  breaks at the first cell that is not.
\<close>

function c4_count_loop :: "board \<Rightarrow> int \<Rightarrow> int \<Rightarrow> int \<Rightarrow> int \<Rightarrow> int \<Rightarrow> int \<Rightarrow> int" where
  "c4_count_loop b row col dr dc k count =
     (if k < 4
      then (let nr = row + k * dr; nc = col + k * dc in
            if nr \<ge> 0 \<and> nr < BOARD_HEIGHT \<and> nc \<ge> 0 \<and> nc < BOARD_LENGTH
               \<and> cell b nr nc = cell b row col
            then c4_count_loop b row col dr dc (k + 1) (count + 1)
            else count)
      else count)"
  by pat_completeness auto
termination
  by (relation "measure (\<lambda>(b, row, col, dr, dc, k, count). nat (4 - k))") auto

declare c4_count_loop.simps [simp del]

text \<open>The loop over the four directions for one start cell.\<close>

fun c4_dirs_loop :: "board \<Rightarrow> int \<Rightarrow> int \<Rightarrow> (int \<times> int) list \<Rightarrow> int option" where
  "c4_dirs_loop b row col [] = None"
| "c4_dirs_loop b row col ((dr, dc) # dirs) =
     (if c4_count_loop b row col dr dc 1 1 = 4 then Some (cell b row col)
      else c4_dirs_loop b row col dirs)"

text \<open>The loop over the columns of one row; an empty cell is skipped (\<open>continue\<close>).\<close>

fun c4_cols_loop :: "board \<Rightarrow> int \<Rightarrow> int list \<Rightarrow> int option" where
  "c4_cols_loop b row [] = None"
| "c4_cols_loop b row (col # cols) =
     (if cell b row col = 0 then c4_cols_loop b row cols
      else (case c4_dirs_loop b row col directions of
              Some w \<Rightarrow> Some w
            | None \<Rightarrow> c4_cols_loop b row cols))"

fun c4_rows_loop :: "board \<Rightarrow> int list \<Rightarrow> int option" where
  "c4_rows_loop b [] = None"
| "c4_rows_loop b (row # rows) =
     (case c4_cols_loop b row [0..BOARD_LENGTH - 1] of
        Some w \<Rightarrow> Some w
      | None \<Rightarrow> c4_rows_loop b rows)"

definition c4_getWinner :: "Connect4 \<Rightarrow> int" where
  "c4_getWinner s =
     (case c4_rows_loop (c4_board s) [0..BOARD_HEIGHT - 1] of Some w \<Rightarrow> w | None \<Rightarrow> 0)"

definition c4_isTerminal :: "Connect4 \<Rightarrow> bool" where
  "c4_isTerminal s = (c4_getWinner s \<noteq> 0 \<or> c4_getAvailableMoves s = [])"

definition c4_evaluate :: "Connect4 \<Rightarrow> int" where
  "c4_evaluate s =
     (let winner = c4_getWinner s in
      if winner = AI then 10 else if winner = PLAYER then - 10 else 0)"

definition c4_checkInput :: "Connect4 \<Rightarrow> int \<Rightarrow> bool" where
  "c4_checkInput s col = (col \<ge> 0 \<and> col < BOARD_LENGTH \<and> cell (c4_board s) 0 col = EMPTY)"

section \<open>The abstract class Game and the search (main.cpp)\<close>

text \<open>
  A \<open>Game &\<close> refers to an object of one of the three final classes; a virtual call
  dispatches on that class.
\<close>

datatype Game = TicTacToe_game TicTacToe | Connect4_game Connect4 | SticksGame_game SticksGame

fun getCurrentPlayer :: "Game \<Rightarrow> int" where
  "getCurrentPlayer (TicTacToe_game s) = ttt_getCurrentPlayer s"
| "getCurrentPlayer (Connect4_game s) = c4_getCurrentPlayer s"
| "getCurrentPlayer (SticksGame_game s) = stk_getCurrentPlayer s"

fun isTerminal :: "Game \<Rightarrow> bool" where
  "isTerminal (TicTacToe_game s) = ttt_isTerminal s"
| "isTerminal (Connect4_game s) = c4_isTerminal s"
| "isTerminal (SticksGame_game s) = stk_isTerminal s"

fun getAvailableMoves :: "Game \<Rightarrow> int list" where
  "getAvailableMoves (TicTacToe_game s) = ttt_getAvailableMoves s"
| "getAvailableMoves (Connect4_game s) = c4_getAvailableMoves s"
| "getAvailableMoves (SticksGame_game s) = stk_getAvailableMoves s"

fun makeMove :: "Game \<Rightarrow> int \<Rightarrow> Game" where
  "makeMove (TicTacToe_game s) x = TicTacToe_game (ttt_makeMove s x)"
| "makeMove (Connect4_game s) x = Connect4_game (c4_makeMove s x)"
| "makeMove (SticksGame_game s) x = SticksGame_game (stk_makeMove s x)"

fun undoMove :: "Game \<Rightarrow> int \<Rightarrow> Game" where
  "undoMove (TicTacToe_game s) x = TicTacToe_game (ttt_undoMove s x)"
| "undoMove (Connect4_game s) x = Connect4_game (c4_undoMove s x)"
| "undoMove (SticksGame_game s) x = SticksGame_game (stk_undoMove s x)"

fun evaluate :: "Game \<Rightarrow> int" where
  "evaluate (TicTacToe_game s) = ttt_evaluate s"
| "evaluate (Connect4_game s) = c4_evaluate s"
| "evaluate (SticksGame_game s) = stk_evaluate s"

fun getWinner :: "Game \<Rightarrow> int" where
  "getWinner (TicTacToe_game s) = ttt_getWinner s"
| "getWinner (Connect4_game s) = c4_getWinner s"
| "getWinner (SticksGame_game s) = stk_getWinner s"

fun checkInput :: "Game \<Rightarrow> int \<Rightarrow> bool" where
  "checkInput (TicTacToe_game s) input = ttt_checkInput s input"
| "checkInput (Connect4_game s) input = c4_checkInput s input"
| "checkInput (SticksGame_game s) input = stk_checkInput s input"

text \<open>The test \<open>dynamic_cast<Connect4*>(&game)\<close> and the cutoff it selects.\<close>

fun isConnect4 :: "Game \<Rightarrow> bool" where
  "isConnect4 (Connect4_game s) = True"
| "isConnect4 _ = False"

definition maxDepth :: "Game \<Rightarrow> int" where
  "maxDepth game = (if isConnect4 game then 6 else 999999)"

text \<open>
  \<open>minMax\<close> works on the one game object, which it changes and restores in place: the
  model returns the score together with the object's state at return. The loop over
  \<open>game.getAvailableMoves()\<close> (a vector computed once, before the first iteration) is the
  \<open>foldl\<close>; its accumulator is \<open>bestScore\<close> and the state of the object.
\<close>

function minMax :: "Game \<Rightarrow> int \<Rightarrow> bool \<Rightarrow> int \<times> Game" where
  "minMax game depth isMaximizing =
     (if depth \<ge> maxDepth game \<or> isTerminal game then (evaluate game, game)
      else foldl (\<lambda>(bestScore, g) move.
                    (let g1 = makeMove g move;
                         (score, g2) = minMax g1 (depth + 1) (\<not> isMaximizing);
                         g3 = undoMove g2 move
                     in (if isMaximizing then max bestScore score else min bestScore score, g3)))
                 (if isMaximizing then INT_MIN else INT_MAX, game)
                 (getAvailableMoves game))"
  by pat_completeness auto
termination
proof (relation "measure (\<lambda>(game, depth, isMaximizing). nat (999999 - depth))")
  show "wf (measure (\<lambda>(game, depth, isMaximizing). nat (999999 - depth)))"
    by simp
next
  fix game :: Game and depth :: int and isMaximizing :: bool and g1 :: Game
  assume "\<not> (maxDepth game \<le> depth \<or> isTerminal game)"
  then have "depth < 999999"
    by (simp add: maxDepth_def split: if_splits)
  then show "((g1, depth + 1, \<not> isMaximizing), (game, depth, isMaximizing))
               \<in> measure (\<lambda>(game, depth, isMaximizing). nat (999999 - depth))"
    by simp
qed

declare minMax.simps [simp del]

text \<open>
  One iteration of the loop of \<open>minMax\<close>, as a function of \<open>bestScore\<close> and the object's
  state: \<open>makeMove\<close>, the recursive call, \<open>undoMove\<close>, then \<open>std::max\<close> or \<open>std::min\<close>.
\<close>

definition minMax_step :: "int \<Rightarrow> bool \<Rightarrow> int \<times> Game \<Rightarrow> int \<Rightarrow> int \<times> Game" where
  "minMax_step depth isMaximizing acc move =
     (case acc of (bestScore, g) \<Rightarrow>
        (let g1 = makeMove g move;
             (score, g2) = minMax g1 (depth + 1) (\<not> isMaximizing);
             g3 = undoMove g2 move
         in (if isMaximizing then max bestScore score else min bestScore score, g3)))"

text \<open>
  The recursive calls that one call of \<open>minMax\<close> makes: in iteration \<open>i\<close> of its loop, on
  the object's state left by the iterations before, with \<open>depth + 1\<close> and the flag negated.
\<close>

inductive minMax_calls :: "Game \<times> int \<times> bool \<Rightarrow> Game \<times> int \<times> bool \<Rightarrow> bool" where
  call: "\<not> (depth \<ge> maxDepth game \<or> isTerminal game) \<Longrightarrow>
         i < length (getAvailableMoves game) \<Longrightarrow>
         g = snd (foldl (minMax_step depth isMaximizing)
                    (if isMaximizing then INT_MIN else INT_MAX, game)
                    (take i (getAvailableMoves game))) \<Longrightarrow>
         minMax_calls (game, depth, isMaximizing)
           (makeMove g (getAvailableMoves game ! i), depth + 1, \<not> isMaximizing)"

text \<open>
  \<open>getBestMove\<close>: the state of its loop is \<open>bestScore\<close>, \<open>bestMove\<close> and the state of the
  game object; \<open>getBestMove_step\<close> is one iteration, and the function returns \<open>bestMove\<close>.
\<close>

definition getBestMove_step :: "int \<times> int \<times> Game \<Rightarrow> int \<Rightarrow> int \<times> int \<times> Game" where
  "getBestMove_step acc move =
     (case acc of (bestScore, bestMove, g) \<Rightarrow>
        (let g1 = makeMove g move;
             (score, g2) = minMax g1 0 False;
             g3 = undoMove g2 move
         in if score > bestScore then (score, move, g3) else (bestScore, bestMove, g3)))"

definition getBestMove_loop :: "Game \<Rightarrow> int \<times> int \<times> Game" where
  "getBestMove_loop game = foldl getBestMove_step (INT_MIN, - 1, game) (getAvailableMoves game)"

definition getBestMove :: "Game \<Rightarrow> int" where
  "getBestMove game = fst (snd (getBestMove_loop game))"

text \<open>The score \<open>getBestMove\<close> computes for a move when the object is in state \<open>game\<close>.\<close>

definition moveScore :: "Game \<Rightarrow> int \<Rightarrow> int" where
  "moveScore game move = fst (minMax (makeMove game move) 0 False)"

text \<open>
  The state of the game object at the start of iteration \<open>i\<close> of the loop of
  \<open>getBestMove\<close>, and the score that iteration computes: it applies the \<open>i\<close>-th move to the
  object as it is then and calls \<open>minMax(game, 0, false)\<close>.
\<close>

definition getBestMove_state :: "Game \<Rightarrow> nat \<Rightarrow> Game" where
  "getBestMove_state game i =
     snd (snd (foldl getBestMove_step (INT_MIN, - 1, game) (take i (getAvailableMoves game))))"

definition loopScore :: "Game \<Rightarrow> nat \<Rightarrow> int" where
  "loopScore game i =
     fst (minMax (makeMove (getBestMove_state game i) (getAvailableMoves game ! i)) 0 False)"

section \<open>Reachable states\<close>

text \<open>
  The states a game object can be in: the constructors' states, and every state obtained
  from one of them by \<open>makeMove\<close> with a move of \<open>getAvailableMoves()\<close>.
\<close>

inductive reachable :: "Game \<Rightarrow> bool" where
  start_TicTacToe: "reachable (TicTacToe_game (ttt_init userIsStarting))"
| start_Connect4: "reachable (Connect4_game (c4_init userIsStarting))"
| start_SticksGame: "reachable (SticksGame_game (stk_init userIsStarting))"
| move: "reachable game \<Longrightarrow> m \<in> set (getAvailableMoves game) \<Longrightarrow> reachable (makeMove game m)"

text \<open>A sequence of moves, each one available in the state it is made in.\<close>

fun legal_play :: "Game \<Rightarrow> int list \<Rightarrow> bool" where
  "legal_play game [] = True"
| "legal_play game (m # ms) = (m \<in> set (getAvailableMoves game) \<and> legal_play (makeMove game m) ms)"

text \<open>The shape of the reachable states, used as the invariant of the proofs below.\<close>

definition board_ok :: "nat \<Rightarrow> nat \<Rightarrow> board \<Rightarrow> bool" where
  "board_ok h w b = (length b = h \<and> (\<forall>row \<in> set b. length row = w))"

definition markers_ok :: "board \<Rightarrow> bool" where
  "markers_ok b = (\<forall>row \<in> set b. \<forall>v \<in> set row. v = AI \<or> v = PLAYER \<or> v = EMPTY)"

definition is_player :: "int \<Rightarrow> bool" where
  "is_player p = (p = AI \<or> p = PLAYER)"

text \<open>In a Connect4 column no marker lies above an empty cell.\<close>

definition gravity :: "board \<Rightarrow> bool" where
  "gravity b =
     (\<forall>col \<in> {0..BOARD_LENGTH - 1}. \<forall>row \<in> {0..BOARD_HEIGHT - 2}.
        cell b row col \<noteq> EMPTY \<longrightarrow> cell b (row + 1) col \<noteq> EMPTY)"

fun game_inv :: "Game \<Rightarrow> bool" where
  "game_inv (TicTacToe_game s) =
     (board_ok 3 3 (ttt_board s) \<and> markers_ok (ttt_board s) \<and> is_player (ttt_currentPlayer s))"
| "game_inv (Connect4_game s) =
     (board_ok 6 7 (c4_board s) \<and> markers_ok (c4_board s) \<and> gravity (c4_board s)
      \<and> is_player (c4_currentPlayer s))"
| "game_inv (SticksGame_game s) = is_player (stk_currentPlayer s)"

section \<open>Winning lines, as the specification describes them\<close>

text \<open>
  The eight lines of the 3x3 grid, as triples of (row, column) positions: the three rows,
  the three columns and the two diagonals.
\<close>

type_synonym ttt_line = "(int \<times> int) \<times> (int \<times> int) \<times> (int \<times> int)"

definition ttt_lines :: "ttt_line list" where
  "ttt_lines =
     [((0, 0), (0, 1), (0, 2)), ((1, 0), (1, 1), (1, 2)), ((2, 0), (2, 1), (2, 2)),
      ((0, 0), (1, 0), (2, 0)), ((0, 1), (1, 1), (2, 1)), ((0, 2), (1, 2), (2, 2)),
      ((0, 0), (1, 1), (2, 2)), ((0, 2), (1, 1), (2, 0))]"

text \<open>A line holds three equal non-empty markers; its marker is the one in its first cell.\<close>

fun ttt_line_won :: "board \<Rightarrow> ttt_line \<Rightarrow> bool" where
  "ttt_line_won b ((r1, c1), (r2, c2), (r3, c3)) =
     (cell b r1 c1 \<noteq> EMPTY \<and> cell b r1 c1 = cell b r2 c2 \<and> cell b r2 c2 = cell b r3 c3)"

fun ttt_line_marker :: "board \<Rightarrow> ttt_line \<Rightarrow> int" where
  "ttt_line_marker b ((r1, c1), l) = cell b r1 c1"

definition ttt_board_full :: "board \<Rightarrow> bool" where
  "ttt_board_full b = (\<forall>i \<in> {0..2}. \<forall>j \<in> {0..2}. cell b i j \<noteq> EMPTY)"

section \<open>Runs of four, as the specification describes them\<close>

definition on_board :: "int \<Rightarrow> int \<Rightarrow> bool" where
  "on_board row col = (0 \<le> row \<and> row < BOARD_HEIGHT \<and> 0 \<le> col \<and> col < BOARD_LENGTH)"

text \<open>
  Four identical non-empty markers that start at \<open>(row, col)\<close> and continue in the
  direction \<open>(dr, dc)\<close>, all on the board.
\<close>

fun run4 :: "board \<Rightarrow> int \<times> int \<times> int \<times> int \<Rightarrow> bool" where
  "run4 b (row, col, dr, dc) =
     (cell b row col \<noteq> 0
      \<and> list_all (\<lambda>k. on_board (row + k * dr) (col + k * dc)
                       \<and> cell b (row + k * dr) (col + k * dc) = cell b row col) [1, 2, 3])"

text \<open>
  The scan order: cells in row-major order and, for each cell, the directions right,
  down, down-right and up-right (row 0 is the top row).
\<close>

definition scan_order :: "(int \<times> int \<times> int \<times> int) list" where
  "scan_order =
     [(row, col, d). row \<leftarrow> [0, 1, 2, 3, 4, 5], col \<leftarrow> [0, 1, 2, 3, 4, 5, 6],
                     d \<leftarrow> [(0, 1), (1, 0), (1, 1), (- 1, 1)]]"

section \<open>Results about SticksGame\<close>

lemma stk_moves_loop_1:
  "stk_moves_loop r 1 = (if r < 1 then [] else if r = 1 then [1] else if r = 2 then [1, 2] else [1, 2, 3])"
  by (simp add: stk_moves_loop.simps [of r 1] stk_moves_loop.simps [of r 2]
        stk_moves_loop.simps [of r 3] stk_moves_loop.simps [of r 4])

lemma stk_set_moves:
  "set (stk_getAvailableMoves s) = {m. 1 \<le> m \<and> m \<le> 3 \<and> m \<le> remainingSticks s}"
  by (auto simp add: stk_getAvailableMoves_def stk_moves_loop_1)

text \<open>
  Claim C1, as the code has it. With no stick left, \<open>getWinner\<close> returns the side whose
  turn it is: PLAYER when \<open>currentPlayer == PLAYER\<close> and AI otherwise, so the side that
  took the last stick loses. From 3 sticks with the AI to move, \<open>makeMove(3)\<close> leaves
  0 sticks with PLAYER to move, and \<open>getWinner\<close> is PLAYER.
\<close>

theorem C1_sticks_winner_is_side_to_move:
  "(remainingSticks s = 0 \<longrightarrow>
      stk_getWinner s = (if stk_currentPlayer s = PLAYER then PLAYER else AI))
   \<and> remainingSticks (stk_makeMove \<lparr>stk_currentPlayer = AI, remainingSticks = 3\<rparr> 3) = 0
   \<and> stk_getWinner (stk_makeMove \<lparr>stk_currentPlayer = AI, remainingSticks = 3\<rparr> 3) = PLAYER"
  by (simp add: stk_getWinner_def stk_makeMove_def switchPlayer_def AI_def PLAYER_def)

theorem C1_sticks_winner_witness:
  "remainingSticks \<lparr>stk_currentPlayer = PLAYER, remainingSticks = 0\<rparr> = 0
   \<and> stk_getWinner \<lparr>stk_currentPlayer = PLAYER, remainingSticks = 0\<rparr> = PLAYER"
  using C1_sticks_winner_is_side_to_move [of "\<lparr>stk_currentPlayer = PLAYER, remainingSticks = 0\<rparr>"]
  by simp

text \<open>
  Claim C1 as the specification words it (the winner is AI when PLAYER is to move at 0
  sticks; AI wins the 3-stick scenario) does not hold of the code.
\<close>

theorem C1_sticks_last_mover_wins_counterexample:
  "stk_getWinner (stk_makeMove \<lparr>stk_currentPlayer = AI, remainingSticks = 3\<rparr> 3) \<noteq> AI"
  by (simp add: stk_getWinner_def stk_makeMove_def switchPlayer_def AI_def PLAYER_def)

section \<open>Input validation agrees with move enumeration\<close>

lemma ttt_set_moves:
  "set (ttt_getAvailableMoves s) =
     {m. 0 \<le> m \<and> m < 9 \<and> cell (ttt_board s) (m div 3) (m mod 3) = EMPTY}"
proof -
  have "m \<in> set (ttt_getAvailableMoves s) \<longleftrightarrow>
        (0 \<le> m \<and> m < 9 \<and> cell (ttt_board s) (m div 3) (m mod 3) = EMPTY)" for m
  proof
    assume "m \<in> set (ttt_getAvailableMoves s)"
    then obtain i j where ij: "0 \<le> i" "i \<le> 2" "0 \<le> j" "j \<le> 2"
        "cell (ttt_board s) i j = EMPTY" "m = i * 3 + j"
      by (auto simp add: ttt_getAvailableMoves_def BOARD_SIZE_def)
    then have "m div 3 = i" "m mod 3 = j" by auto
    with ij show "0 \<le> m \<and> m < 9 \<and> cell (ttt_board s) (m div 3) (m mod 3) = EMPTY"
      by auto
  next
    assume a: "0 \<le> m \<and> m < 9 \<and> cell (ttt_board s) (m div 3) (m mod 3) = EMPTY"
    then have "0 \<le> m div 3" "m div 3 \<le> 2" "0 \<le> m mod 3" "m mod 3 \<le> 2"
        "m = (m div 3) * 3 + m mod 3"
      by auto
    with a have "\<exists>i\<in>{0..2}. \<exists>j\<in>{0..2} \<inter> {j. cell (ttt_board s) i j = EMPTY}. m = i * 3 + j"
      by (intro bexI [of _ "m div 3"] bexI [of _ "m mod 3"]) auto
    then show "m \<in> set (ttt_getAvailableMoves s)"
      by (simp add: ttt_getAvailableMoves_def BOARD_SIZE_def)
  qed
  then show ?thesis by blast
qed

lemma c4_set_moves:
  "set (c4_getAvailableMoves s) = {col. 0 \<le> col \<and> col < 7 \<and> cell (c4_board s) 0 col = EMPTY}"
  by (auto simp add: c4_getAvailableMoves_def BOARD_LENGTH_def)

text \<open>
  Claim C6. For each of the three games, in every state and for every integer \<open>m\<close>,
  \<open>checkInput(m)\<close> is true exactly when \<open>m\<close> occurs in \<open>getAvailableMoves()\<close>.
\<close>

theorem C6_checkInput_iff_available:
  "checkInput game m \<longleftrightarrow> m \<in> set (getAvailableMoves game)"
proof (cases game)
  case (TicTacToe_game s)
  then show ?thesis
    by (simp add: ttt_set_moves ttt_checkInput_def BOARD_SIZE_def)
next
  case (Connect4_game s)
  then show ?thesis
    by (simp add: c4_set_moves c4_checkInput_def BOARD_LENGTH_def)
next
  case (SticksGame_game s)
  then show ?thesis
    by (simp add: stk_set_moves stk_checkInput_def)
qed

section \<open>Illegal moves\<close>

lemma c4_makeMove_loop_full:
  "(\<And>r. 0 \<le> r \<Longrightarrow> r \<le> row \<Longrightarrow> cell (c4_board s) r col \<noteq> EMPTY) \<Longrightarrow>
   c4_makeMove_loop s col row = s"
proof (induction s col row rule: c4_makeMove_loop.induct)
  case (1 s col row)
  show ?case
  proof (cases "row \<ge> 0")
    case True
    then have ne: "cell (c4_board s) row col \<noteq> EMPTY"
      using "1.prems" by simp
    have "c4_makeMove_loop s col (row - 1) = s"
      using True ne "1.prems" by (intro "1.IH") auto
    with True ne show ?thesis
      by (simp add: c4_makeMove_loop.simps [of s col row])
  next
    case False
    then show ?thesis
      by (simp add: c4_makeMove_loop.simps [of s col row])
  qed
qed

lemma c4_makeMove_loop_place:
  "0 \<le> r \<Longrightarrow> r \<le> row \<Longrightarrow> cell (c4_board s) r col = EMPTY \<Longrightarrow>
   (\<And>r'. r < r' \<Longrightarrow> r' \<le> row \<Longrightarrow> cell (c4_board s) r' col \<noteq> EMPTY) \<Longrightarrow>
   c4_makeMove_loop s col row =
     s\<lparr>c4_board := set_cell (c4_board s) r col (c4_currentPlayer s),
       c4_currentPlayer := switchPlayer (c4_currentPlayer s)\<rparr>"
proof (induction s col row rule: c4_makeMove_loop.induct)
  case (1 s col row)
  show ?case
  proof (cases "r = row")
    case True
    with "1.prems" show ?thesis
      by (simp add: c4_makeMove_loop.simps [of s col row])
  next
    case False
    with "1.prems" have lt: "r < row" by simp
    then have ne: "cell (c4_board s) row col \<noteq> EMPTY"
      using "1.prems" by simp
    have "c4_makeMove_loop s col (row - 1) =
            s\<lparr>c4_board := set_cell (c4_board s) r col (c4_currentPlayer s),
              c4_currentPlayer := switchPlayer (c4_currentPlayer s)\<rparr>"
      using lt ne "1.prems" by (intro "1.IH") auto
    with lt ne "1.prems" show ?thesis
      by (simp add: c4_makeMove_loop.simps [of s col row])
  qed
qed

lemma switchPlayer_changes: "switchPlayer p \<noteq> p"
  by (simp add: switchPlayer_def AI_def PLAYER_def)

lemma all_rows_6: "(\<forall>row::int. 0 \<le> row \<and> row < 6 \<longrightarrow> P row) \<longleftrightarrow> (P 0 \<and> P 1 \<and> P 2 \<and> P 3 \<and> P 4 \<and> P 5)"
proof -
  have "(0 \<le> row \<and> row < 6) \<longleftrightarrow> (row = 0 \<or> row = 1 \<or> row = 2 \<or> row = 3 \<or> row = 4 \<or> row = 5)" for row :: int
    by arith
  then show ?thesis by auto
qed

text \<open>
  Claim C10. \<open>TicTacToe::makeMove\<close> with a cell index outside \<open>0..8\<close> or naming a
  non-empty cell changes neither the board nor \<open>currentPlayer\<close>; \<open>Connect4::makeMove\<close> on an
  in-range column with no empty row changes nothing either; \<open>SticksGame::makeMove\<close> checks
  nothing: it always subtracts its argument and always changes \<open>currentPlayer\<close>.
\<close>

theorem C10_illegal_makeMove:
  "(cellIndex < 0 \<or> cellIndex > 8
      \<or> cell (ttt_board t) (cellIndex div 3) (cellIndex mod 3) \<noteq> EMPTY
    \<longrightarrow> ttt_makeMove t cellIndex = t)
   \<and> (0 \<le> col \<and> col < 7 \<and> (\<forall>row. 0 \<le> row \<and> row < 6 \<longrightarrow> cell (c4_board c) row col \<noteq> EMPTY)
       \<longrightarrow> c4_makeMove c col = c)
   \<and> stk_makeMove k n =
       k\<lparr>remainingSticks := remainingSticks k - n,
         stk_currentPlayer := switchPlayer (stk_currentPlayer k)\<rparr>
   \<and> stk_currentPlayer (stk_makeMove k n) \<noteq> stk_currentPlayer k"
proof (intro conjI impI)
  assume "cellIndex < 0 \<or> cellIndex > 8
      \<or> cell (ttt_board t) (cellIndex div 3) (cellIndex mod 3) \<noteq> EMPTY"
  then show "ttt_makeMove t cellIndex = t"
    by (auto simp add: ttt_makeMove_def BOARD_SIZE_def)
next
  assume a: "0 \<le> col \<and> col < 7 \<and> (\<forall>row. 0 \<le> row \<and> row < 6 \<longrightarrow> cell (c4_board c) row col \<noteq> EMPTY)"
  then have "c4_makeMove_loop c col 5 = c"
    by (intro c4_makeMove_loop_full) auto
  with a show "c4_makeMove c col = c"
    by (simp add: c4_makeMove_def BOARD_LENGTH_def BOARD_HEIGHT_def)
next
  show "stk_makeMove k n =
       k\<lparr>remainingSticks := remainingSticks k - n,
         stk_currentPlayer := switchPlayer (stk_currentPlayer k)\<rparr>"
    by (simp add: stk_makeMove_def)
next
  show "stk_currentPlayer (stk_makeMove k n) \<noteq> stk_currentPlayer k"
    by (simp add: stk_makeMove_def switchPlayer_changes)
qed

theorem C10_illegal_makeMove_witness:
  "(9::int) > 8
   \<and> ttt_makeMove (ttt_init True) 9 = ttt_init True
   \<and> map (\<lambda>row.
        cell [[1, 0, 0, 0, 0, 0, 0], [- 1, 0, 0, 0, 0, 0, 0], [1, 0, 0, 0, 0, 0, 0],
              [- 1, 0, 0, 0, 0, 0, 0], [1, 0, 0, 0, 0, 0, 0], [- 1, 0, 0, 0, 0, 0, 0]] row 0)
        [0, 1, 2, 3, 4, 5] = [1, - 1, 1, - 1, 1, - 1]
   \<and> c4_makeMove
        \<lparr>c4_board = [[1, 0, 0, 0, 0, 0, 0], [- 1, 0, 0, 0, 0, 0, 0], [1, 0, 0, 0, 0, 0, 0],
              [- 1, 0, 0, 0, 0, 0, 0], [1, 0, 0, 0, 0, 0, 0], [- 1, 0, 0, 0, 0, 0, 0]],
         c4_currentPlayer = - 1\<rparr> 0
       = \<lparr>c4_board = [[1, 0, 0, 0, 0, 0, 0], [- 1, 0, 0, 0, 0, 0, 0], [1, 0, 0, 0, 0, 0, 0],
              [- 1, 0, 0, 0, 0, 0, 0], [1, 0, 0, 0, 0, 0, 0], [- 1, 0, 0, 0, 0, 0, 0]],
         c4_currentPlayer = - 1\<rparr>
   \<and> stk_makeMove \<lparr>stk_currentPlayer = 1, remainingSticks = 2\<rparr> 5
       = \<lparr>stk_currentPlayer = - 1, remainingSticks = - 3\<rparr>"
  using C10_illegal_makeMove [of 9 "ttt_init True" 0
      "\<lparr>c4_board = [[1, 0, 0, 0, 0, 0, 0], [- 1, 0, 0, 0, 0, 0, 0], [1, 0, 0, 0, 0, 0, 0],
              [- 1, 0, 0, 0, 0, 0, 0], [1, 0, 0, 0, 0, 0, 0], [- 1, 0, 0, 0, 0, 0, 0]],
         c4_currentPlayer = - 1\<rparr>"
      "\<lparr>stk_currentPlayer = 1, remainingSticks = 2\<rparr>" 5]
  by (simp add: all_rows_6 cell_def EMPTY_def switchPlayer_def PLAYER_def AI_def)


section \<open>Cells of a board\<close>

lemma cell_set_cell:
  "board_ok h w b \<Longrightarrow> 0 \<le> r \<Longrightarrow> r < int h \<Longrightarrow> 0 \<le> c \<Longrightarrow> c < int w \<Longrightarrow> 0 \<le> r' \<Longrightarrow> 0 \<le> c' \<Longrightarrow>
   cell (set_cell b r c v) r' c' = (if r' = r \<and> c' = c then v else cell b r' c')"
proof -
  assume ok: "board_ok h w b" and r: "0 \<le> r" "r < int h" and c: "0 \<le> c" "c < int w"
    and r': "0 \<le> r'" and c': "0 \<le> c'"
  from ok r have lr: "nat r < length b" by (simp add: board_ok_def)
  then have "b ! nat r \<in> set b" by simp
  with ok c have lc: "nat c < length (b ! nat r)" by (simp add: board_ok_def)
  show ?thesis
  proof (cases "r' = r")
    case True
    then show ?thesis
      using lr lc c c' by (auto simp add: cell_def set_cell_def nth_list_update)
  next
    case False
    then have "nat r' \<noteq> nat r" using r r' by simp
    with False show ?thesis
      by (simp add: cell_def set_cell_def)
  qed
qed

lemma set_cell_id: "cell b r c = v \<Longrightarrow> set_cell b r c v = b"
  by (auto simp add: cell_def set_cell_def)

lemma set_cell_set_cell: "set_cell (set_cell b r c v) r c w = set_cell b r c w"
proof (cases "nat r < length b")
  case True
  then show ?thesis by (simp add: set_cell_def)
next
  case False
  then show ?thesis by (simp add: set_cell_def list_update_beyond)
qed

lemma board_ok_set_cell: "board_ok h w b \<Longrightarrow> board_ok h w (set_cell b r c v)"
proof -
  assume ok: "board_ok h w b"
  have "length row = w" if "row \<in> set (set_cell b r c v)" for row
  proof -
    from that have "row \<in> insert ((b ! nat r)[nat c := v]) (set b)"
      using set_update_subset_insert [of b "nat r" "(b ! nat r)[nat c := v]"]
      by (auto simp add: set_cell_def)
    then show ?thesis
    proof
      assume e: "row = (b ! nat r)[nat c := v]"
      show ?thesis
      proof (cases "nat r < length b")
        case True
        then have "b ! nat r \<in> set b" by simp
        with ok e show ?thesis by (simp add: board_ok_def)
      next
        case False
        with that have "row \<in> set b" by (simp add: set_cell_def list_update_beyond)
        with ok show ?thesis by (simp add: board_ok_def)
      qed
    next
      assume "row \<in> set b"
      with ok show ?thesis by (simp add: board_ok_def)
    qed
  qed
  with ok show ?thesis by (simp add: board_ok_def set_cell_def)
qed

lemma markers_ok_set_cell:
  assumes "markers_ok b" and "v = AI \<or> v = PLAYER \<or> v = EMPTY"
  shows "markers_ok (set_cell b r c v)"
proof -
  have "x = AI \<or> x = PLAYER \<or> x = EMPTY" if "row \<in> set (set_cell b r c v)" "x \<in> set row" for row x
  proof (cases "nat r < length b")
    case True
    then have br: "b ! nat r \<in> set b" by simp
    from that(1) have "row \<in> insert ((b ! nat r)[nat c := v]) (set b)"
      using set_update_subset_insert [of b "nat r" "(b ! nat r)[nat c := v]"]
      by (auto simp add: set_cell_def)
    then show ?thesis
    proof
      assume "row = (b ! nat r)[nat c := v]"
      with that(2) have "x \<in> insert v (set (b ! nat r))"
        using set_update_subset_insert [of "b ! nat r" "nat c" v] by auto
      with assms br show ?thesis by (auto simp add: markers_ok_def)
    next
      assume "row \<in> set b"
      with assms that(2) show ?thesis by (auto simp add: markers_ok_def)
    qed
  next
    case False
    with that(1) have "row \<in> set b" by (simp add: set_cell_def list_update_beyond)
    with assms that(2) show ?thesis by (auto simp add: markers_ok_def)
  qed
  then show ?thesis unfolding markers_ok_def by blast
qed

lemma switchPlayer_twice: "is_player p \<Longrightarrow> switchPlayer (switchPlayer p) = p"
  by (auto simp add: is_player_def switchPlayer_def AI_def PLAYER_def)

lemma is_player_switch: "is_player (switchPlayer p)"
  by (simp add: is_player_def switchPlayer_def)

lemma is_player_nonempty: "is_player p \<Longrightarrow> p \<noteq> EMPTY"
  by (auto simp add: is_player_def AI_def PLAYER_def EMPTY_def)

lemma is_player_marker: "is_player p \<Longrightarrow> p = AI \<or> p = PLAYER \<or> p = EMPTY"
  by (auto simp add: is_player_def)

section \<open>makeMove followed by undoMove\<close>

lemma ttt_move_inverse:
  assumes ok: "board_ok 3 3 (ttt_board s)" and pl: "is_player (ttt_currentPlayer s)"
    and m: "m \<in> set (ttt_getAvailableMoves s)"
  shows "ttt_undoMove (ttt_makeMove s m) m = s"
    and "ttt_makeMove s m =
           s\<lparr>ttt_board := set_cell (ttt_board s) (m div 3) (m mod 3) (ttt_currentPlayer s),
             ttt_currentPlayer := switchPlayer (ttt_currentPlayer s)\<rparr>"
proof -
  from m have rng: "0 \<le> m" "m < 9" and emp: "cell (ttt_board s) (m div 3) (m mod 3) = EMPTY"
    by (simp_all add: ttt_set_moves)
  from rng have ij: "0 \<le> m div 3" "m div 3 < 3" "0 \<le> m mod 3" "m mod 3 < 3" by auto
  show mk: "ttt_makeMove s m =
           s\<lparr>ttt_board := set_cell (ttt_board s) (m div 3) (m mod 3) (ttt_currentPlayer s),
             ttt_currentPlayer := switchPlayer (ttt_currentPlayer s)\<rparr>"
    using rng emp by (simp add: ttt_makeMove_def BOARD_SIZE_def)
  have rd: "cell (set_cell (ttt_board s) (m div 3) (m mod 3) (ttt_currentPlayer s)) (m div 3) (m mod 3)
              = ttt_currentPlayer s"
    using cell_set_cell [OF ok, of "m div 3" "m mod 3" "m div 3" "m mod 3"] ij by simp
  have restore: "set_cell (set_cell (ttt_board s) (m div 3) (m mod 3) (ttt_currentPlayer s))
                 (m div 3) (m mod 3) EMPTY = ttt_board s"
    using emp by (simp add: set_cell_set_cell set_cell_id)
  show "ttt_undoMove (ttt_makeMove s m) m = s"
    using rng rd restore is_player_nonempty [OF pl] switchPlayer_twice [OF pl]
    by (simp add: mk ttt_undoMove_def BOARD_SIZE_def)
qed

lemma stk_move_inverse:
  "is_player (stk_currentPlayer s) \<Longrightarrow> stk_undoMove (stk_makeMove s m) m = s"
  by (simp add: stk_makeMove_def stk_undoMove_def switchPlayer_twice)

lemma gravity_below:
  assumes g: "gravity b" and col: "0 \<le> col" "col < 7"
    and ne: "cell b r col \<noteq> EMPTY" and r: "0 \<le> r"
  shows "r \<le> r' \<Longrightarrow> r' < 6 \<Longrightarrow> cell b r' col \<noteq> EMPTY"
proof (induction r' rule: int_ge_induct)
  case base
  show ?case by (rule ne)
next
  case (step i)
  then have "cell b i col \<noteq> EMPTY" by simp
  moreover have "i \<in> {0..BOARD_HEIGHT - 2}" "col \<in> {0..BOARD_LENGTH - 1}"
    using step r col by (simp_all add: BOARD_HEIGHT_def BOARD_LENGTH_def)
  ultimately show ?case using g unfolding gravity_def by blast
qed

lemma c4_undoMove_loop_clear:
  "row \<le> r \<Longrightarrow> r < 6 \<Longrightarrow> cell (c4_board s) r col \<noteq> EMPTY \<Longrightarrow>
   (\<And>r'. row \<le> r' \<Longrightarrow> r' < r \<Longrightarrow> cell (c4_board s) r' col = EMPTY) \<Longrightarrow>
   c4_undoMove_loop s col row =
     s\<lparr>c4_board := set_cell (c4_board s) r col EMPTY,
       c4_currentPlayer := switchPlayer (c4_currentPlayer s)\<rparr>"
proof (induction s col row rule: c4_undoMove_loop.induct)
  case (1 s col row)
  show ?case
  proof (cases "r = row")
    case True
    with "1.prems" show ?thesis
      by (simp add: c4_undoMove_loop.simps [of s col row] BOARD_HEIGHT_def)
  next
    case False
    with "1.prems" have lt: "row < r" by simp
    then have e: "cell (c4_board s) row col = EMPTY"
      using "1.prems" by simp
    have "c4_undoMove_loop s col (row + 1) =
            s\<lparr>c4_board := set_cell (c4_board s) r col EMPTY,
              c4_currentPlayer := switchPlayer (c4_currentPlayer s)\<rparr>"
      using lt e "1.prems" by (intro "1.IH") (auto simp add: BOARD_HEIGHT_def)
    with lt e "1.prems" show ?thesis
      by (simp add: c4_undoMove_loop.simps [of s col row] BOARD_HEIGHT_def)
  qed
qed

lemma c4_makeMove_places:
  assumes col: "0 \<le> col" "col < 7" and top: "\<exists>row. 0 \<le> row \<and> row < 6 \<and> cell (c4_board s) row col = EMPTY"
  shows "\<exists>r. 0 \<le> r \<and> r < 6 \<and> cell (c4_board s) r col = EMPTY
            \<and> (\<forall>r'. r < r' \<and> r' < 6 \<longrightarrow> cell (c4_board s) r' col \<noteq> EMPTY)
            \<and> c4_makeMove s col =
                s\<lparr>c4_board := set_cell (c4_board s) r col (c4_currentPlayer s),
                  c4_currentPlayer := switchPlayer (c4_currentPlayer s)\<rparr>"
proof -
  define S where "S = {r \<in> {0..5}. cell (c4_board s) r col = EMPTY}"
  have "S \<subseteq> {0..5}" unfolding S_def by blast
  then have fin: "finite S" by (rule finite_subset) simp
  from top obtain row where "0 \<le> row" "row < 6" "cell (c4_board s) row col = EMPTY"
    by blast
  then have "row \<in> S" unfolding S_def by simp
  then have ne: "S \<noteq> {}" by blast
  define r where "r = Max S"
  have "r \<in> S" unfolding r_def using fin ne by (rule Max_in)
  then have r: "0 \<le> r" "r \<le> 5" "cell (c4_board s) r col = EMPTY"
    unfolding S_def by simp_all
  have above: "cell (c4_board s) r' col \<noteq> EMPTY" if "r < r'" "r' \<le> 5" for r'
  proof
    assume "cell (c4_board s) r' col = EMPTY"
    with that r have "r' \<in> S" unfolding S_def by simp
    then have "r' \<le> r" unfolding r_def using fin by (rule Max_ge [rotated])
    with that show False by simp
  qed
  have loop: "c4_makeMove_loop s col 5 =
          s\<lparr>c4_board := set_cell (c4_board s) r col (c4_currentPlayer s),
            c4_currentPlayer := switchPlayer (c4_currentPlayer s)\<rparr>"
    using r above by (rule c4_makeMove_loop_place)
  have mk: "c4_makeMove s col = c4_makeMove_loop s col 5"
    using col by (simp add: c4_makeMove_def BOARD_LENGTH_def BOARD_HEIGHT_def)
  show ?thesis
  proof (intro exI [of _ r] conjI allI impI)
    show "0 \<le> r" by (rule r)
    show "r < 6" using r by simp
    show "cell (c4_board s) r col = EMPTY" by (rule r)
    show "cell (c4_board s) r' col \<noteq> EMPTY" if "r < r' \<and> r' < 6" for r'
      using that above [of r'] by simp
    show "c4_makeMove s col =
            s\<lparr>c4_board := set_cell (c4_board s) r col (c4_currentPlayer s),
              c4_currentPlayer := switchPlayer (c4_currentPlayer s)\<rparr>"
      by (simp only: mk loop)
  qed
qed

lemma c4_move_inverse:
  assumes ok: "board_ok 6 7 (c4_board s)" and mk: "markers_ok (c4_board s)"
    and g: "gravity (c4_board s)" and pl: "is_player (c4_currentPlayer s)"
    and m: "col \<in> set (c4_getAvailableMoves s)"
  shows "c4_undoMove (c4_makeMove s col) col = s"
    and "board_ok 6 7 (c4_board (c4_makeMove s col))"
    and "markers_ok (c4_board (c4_makeMove s col))"
    and "gravity (c4_board (c4_makeMove s col))"
    and "c4_currentPlayer (c4_makeMove s col) = switchPlayer (c4_currentPlayer s)"
proof -
  let ?b = "c4_board s" and ?p = "c4_currentPlayer s"
  from m have col: "0 \<le> col" "col < 7" and top: "cell ?b 0 col = EMPTY"
    by (simp_all add: c4_set_moves)
  from top have "\<exists>row. 0 \<le> row \<and> row < 6 \<and> cell ?b row col = EMPTY"
    by (intro exI [of _ 0]) simp
  from c4_makeMove_places [OF col this]
  obtain r where r: "0 \<le> r" "r < 6" and emp: "cell ?b r col = EMPTY"
    and below: "\<And>r'. r < r' \<Longrightarrow> r' < 6 \<Longrightarrow> cell ?b r' col \<noteq> EMPTY"
    and eq: "c4_makeMove s col = s\<lparr>c4_board := set_cell ?b r col ?p, c4_currentPlayer := switchPlayer ?p\<rparr>"
    by blast
  let ?b' = "set_cell ?b r col ?p"
  have rd: "cell ?b' r' c' = (if r' = r \<and> c' = col then ?p else cell ?b r' c')"
    if "0 \<le> r'" "0 \<le> c'" for r' c'
    using cell_set_cell [OF ok, of r col r' c' ?p] r col that by simp
  have above: "cell ?b r' col = EMPTY" if "0 \<le> r'" "r' < r" for r'
  proof (rule ccontr)
    assume "cell ?b r' col \<noteq> EMPTY"
    from gravity_below [OF g col this that(1), of r] that r emp show False by simp
  qed
  show "c4_currentPlayer (c4_makeMove s col) = switchPlayer ?p"
    by (simp add: eq)
  show "board_ok 6 7 (c4_board (c4_makeMove s col))"
    using ok by (simp add: eq board_ok_set_cell)
  show "markers_ok (c4_board (c4_makeMove s col))"
    using mk is_player_marker [OF pl] by (simp add: eq markers_ok_set_cell)
  show "gravity (c4_board (c4_makeMove s col))"
    unfolding gravity_def
  proof (intro ballI impI)
    fix c' row
    assume c': "c' \<in> {0..BOARD_LENGTH - 1}" and row: "row \<in> {0..BOARD_HEIGHT - 2}"
      and ne: "cell (c4_board (c4_makeMove s col)) row c' \<noteq> EMPTY"
    from c' row have rng: "0 \<le> c'" "c' < 7" "0 \<le> row" "row < 5"
      by (simp_all add: BOARD_LENGTH_def BOARD_HEIGHT_def)
    have nb: "c4_board (c4_makeMove s col) = ?b'" by (simp add: eq)
    show "cell (c4_board (c4_makeMove s col)) (row + 1) c' \<noteq> EMPTY"
    proof (cases "row + 1 = r \<and> c' = col")
      case True
      then have "cell ?b' (row + 1) c' = ?p"
        using rng rd [of "row + 1" c'] by simp
      then show ?thesis
        using is_player_nonempty [OF pl] by (simp add: nb)
    next
      case False
      then have same: "cell ?b' (row + 1) c' = cell ?b (row + 1) c'"
        using rng rd [of "row + 1" c'] by auto
      show ?thesis
      proof (cases "row = r \<and> c' = col")
        case True
        then have "cell ?b (row + 1) c' \<noteq> EMPTY"
          using below [of "row + 1"] rng by simp
        then show ?thesis by (simp add: nb same)
      next
        case False
        then have "cell ?b' row c' = cell ?b row c'"
          using rng rd [of row c'] by auto
        with ne have "cell ?b row c' \<noteq> EMPTY" by (simp add: nb)
        then have "cell ?b (row + 1) c' \<noteq> EMPTY"
          using g c' row unfolding gravity_def by blast
        then show ?thesis by (simp add: nb same)
      qed
    qed
  qed
  have "c4_undoMove_loop (c4_makeMove s col) col 0 =
          (c4_makeMove s col)\<lparr>c4_board := set_cell (c4_board (c4_makeMove s col)) r col EMPTY,
             c4_currentPlayer := switchPlayer (c4_currentPlayer (c4_makeMove s col))\<rparr>"
  proof (rule c4_undoMove_loop_clear)
    show "0 \<le> r" "r < 6" by (rule r)+
    show "cell (c4_board (c4_makeMove s col)) r col \<noteq> EMPTY"
      using r col rd [of r col] is_player_nonempty [OF pl] by (simp add: eq)
    show "cell (c4_board (c4_makeMove s col)) r' col = EMPTY" if "0 \<le> r'" "r' < r" for r'
      using that col rd [of r' col] above [of r'] by (simp add: eq)
  qed
  then show "c4_undoMove (c4_makeMove s col) col = s"
    using col emp switchPlayer_twice [OF pl]
    by (simp add: c4_undoMove_def BOARD_LENGTH_def eq set_cell_set_cell set_cell_id)
qed

lemma move_inverse:
  assumes "game_inv game" and "m \<in> set (getAvailableMoves game)"
  shows "undoMove (makeMove game m) m = game"
    and "game_inv (makeMove game m)"
    and "getCurrentPlayer (makeMove game m) = switchPlayer (getCurrentPlayer game)"
proof -
  have "undoMove (makeMove game m) m = game \<and> game_inv (makeMove game m)
        \<and> getCurrentPlayer (makeMove game m) = switchPlayer (getCurrentPlayer game)"
  proof (cases game)
    case (TicTacToe_game s)
    with assms have ok: "board_ok 3 3 (ttt_board s)" and mk: "markers_ok (ttt_board s)"
      and pl: "is_player (ttt_currentPlayer s)" and m: "m \<in> set (ttt_getAvailableMoves s)"
      by simp_all
    note inv = ttt_move_inverse [OF ok pl m]
    show ?thesis
      using ok mk is_player_marker [OF pl]
      by (simp add: TicTacToe_game inv(1) ttt_getCurrentPlayer_def)
         (simp add: inv(2) board_ok_set_cell markers_ok_set_cell is_player_switch)
  next
    case (Connect4_game s)
    with assms have ok: "board_ok 6 7 (c4_board s)" and mk: "markers_ok (c4_board s)"
      and g: "gravity (c4_board s)"
      and pl: "is_player (c4_currentPlayer s)" and m: "m \<in> set (c4_getAvailableMoves s)"
      by simp_all
    note inv = c4_move_inverse [OF ok mk g pl m]
    show ?thesis
      by (simp add: Connect4_game inv c4_getCurrentPlayer_def is_player_switch)
  next
    case (SticksGame_game s)
    with assms have pl: "is_player (stk_currentPlayer s)" by simp
    show ?thesis
      using stk_move_inverse [OF pl, of m]
      by (simp add: SticksGame_game stk_getCurrentPlayer_def) (simp add: stk_makeMove_def is_player_switch)
  qed
  then show "undoMove (makeMove game m) m = game"
    and "game_inv (makeMove game m)"
    and "getCurrentPlayer (makeMove game m) = switchPlayer (getCurrentPlayer game)"
    by simp_all
qed

lemma cell_replicate:
  "0 \<le> r \<Longrightarrow> r < int h \<Longrightarrow> 0 \<le> c \<Longrightarrow> c < int w \<Longrightarrow> cell (replicate h (replicate w v)) r c = v"
  by (simp add: cell_def)

lemma reachable_inv: "reachable game \<Longrightarrow> game_inv game"
proof (induction rule: reachable.induct)
  case (start_TicTacToe userIsStarting)
  show ?case
    by (simp add: ttt_init_def board_ok_def markers_ok_def is_player_def BOARD_SIZE_def)
next
  case (start_Connect4 userIsStarting)
  have "gravity (replicate 6 (replicate 7 0))"
    unfolding gravity_def
    by (simp add: cell_replicate BOARD_LENGTH_def BOARD_HEIGHT_def EMPTY_def)
  then show ?case
    by (simp add: c4_init_def board_ok_def markers_ok_def is_player_def
        BOARD_LENGTH_def BOARD_HEIGHT_def EMPTY_def)
next
  case (start_SticksGame userIsStarting)
  show ?case
    by (simp add: stk_init_def is_player_def)
next
  case (move game m)
  then show ?case by (simp add: move_inverse)
qed

lemma game_inv_player: "game_inv game \<Longrightarrow> is_player (getCurrentPlayer game)"
  by (cases game)
     (simp_all add: ttt_getCurrentPlayer_def c4_getCurrentPlayer_def stk_getCurrentPlayer_def)

text \<open>
  Claim C2. For each of the three games, in every reachable state and for every move \<open>m\<close>
  of \<open>getAvailableMoves()\<close>, \<open>makeMove(m)\<close> followed by \<open>undoMove(m)\<close> gives back the
  same state (the whole board or the stick counter, and \<open>currentPlayer\<close>), and each of the
  two calls changes \<open>currentPlayer\<close> to the other side.
\<close>

theorem C2_makeMove_undoMove_inverse:
  assumes "reachable game" and "m \<in> set (getAvailableMoves game)"
  shows "undoMove (makeMove game m) m = game
    \<and> getCurrentPlayer (makeMove game m) = switchPlayer (getCurrentPlayer game)
    \<and> getCurrentPlayer (makeMove game m) \<noteq> getCurrentPlayer game
    \<and> getCurrentPlayer (undoMove (makeMove game m) m)
        = switchPlayer (getCurrentPlayer (makeMove game m))"
proof -
  from assms(1) have inv: "game_inv game" by (rule reachable_inv)
  note mv = move_inverse [OF inv assms(2)]
  have pl: "is_player (getCurrentPlayer game)" using inv by (rule game_inv_player)
  show ?thesis
    using switchPlayer_twice [OF pl] switchPlayer_changes [of "getCurrentPlayer game"]
    by (simp add: mv(1) mv(3))
qed

theorem C2_makeMove_undoMove_inverse_witness:
  "reachable (Connect4_game (c4_init True))
   \<and> 3 \<in> set (getAvailableMoves (Connect4_game (c4_init True)))
   \<and> undoMove (makeMove (Connect4_game (c4_init True)) 3) 3 = Connect4_game (c4_init True)
   \<and> getCurrentPlayer (makeMove (Connect4_game (c4_init True)) 3) = AI
   \<and> getCurrentPlayer (Connect4_game (c4_init True)) = PLAYER"
proof -
  have r: "reachable (Connect4_game (c4_init True))"
    by (rule reachable.start_Connect4)
  have m: "3 \<in> set (getAvailableMoves (Connect4_game (c4_init True)))"
    by code_simp
  have p: "getCurrentPlayer (Connect4_game (c4_init True)) = PLAYER"
    by (simp add: c4_getCurrentPlayer_def c4_init_def)
  from C2_makeMove_undoMove_inverse [OF r m] r m p show ?thesis
    by (simp add: switchPlayer_def)
qed


section \<open>Connect4: dropping markers into a column\<close>

lemma c4_moves_filter:
  "c4_getAvailableMoves s = filter (\<lambda>col. cell (c4_board s) 0 col = EMPTY) [0, 1, 2, 3, 4, 5, 6]"
proof -
  have u: "[0..BOARD_LENGTH - 1] = [0, 1, 2, 3, 4, 5, 6]"
    by (simp add: BOARD_LENGTH_def upto_rec1)
  have "concat (map (\<lambda>x. if P x then [x] else []) xs) = filter P xs" for P and xs :: "int list"
    by (induction xs) simp_all
  then show ?thesis
    by (simp only: c4_getAvailableMoves_def u)
qed

lemma c4_fill_column:
  assumes ok: "board_ok 6 7 (c4_board s)" and pl: "is_player (c4_currentPlayer s)"
    and col: "0 \<le> col" "col < 7"
    and emp: "\<And>row. 0 \<le> row \<Longrightarrow> row < 6 \<Longrightarrow> cell (c4_board s) row col = EMPTY"
  shows "k \<le> 6 \<Longrightarrow>
     board_ok 6 7 (c4_board (((\<lambda>t. c4_makeMove t col) ^^ k) s))
     \<and> c4_currentPlayer (((\<lambda>t. c4_makeMove t col) ^^ k) s)
         = (if even k then c4_currentPlayer s else switchPlayer (c4_currentPlayer s))
     \<and> (\<forall>row. 0 \<le> row \<and> row < 6 \<longrightarrow>
          cell (c4_board (((\<lambda>t. c4_makeMove t col) ^^ k) s)) row col
            = (if row \<ge> 6 - int k
               then (if odd row then c4_currentPlayer s else switchPlayer (c4_currentPlayer s))
               else EMPTY))"
proof (induction k)
  case 0
  show ?case using ok emp by simp
next
  case (Suc k)
  let ?p = "c4_currentPlayer s"
  let ?t = "((\<lambda>t. c4_makeMove t col) ^^ k) s"
  let ?mark = "\<lambda>row::int. if odd row then ?p else switchPlayer ?p"
  from Suc have k: "k < 6" by simp
  from Suc have okt: "board_ok 6 7 (c4_board ?t)"
    and pt: "c4_currentPlayer ?t = (if even k then ?p else switchPlayer ?p)"
    and cells: "\<And>row. 0 \<le> row \<Longrightarrow> row < 6 \<Longrightarrow>
          cell (c4_board ?t) row col = (if row \<ge> 6 - int k then ?mark row else EMPTY)"
    by simp_all
  have mark_ne: "?mark row \<noteq> EMPTY" for row
    using is_player_nonempty [OF pl] is_player_nonempty [OF is_player_switch [of ?p]] by simp
  have "cell (c4_board ?t) (5 - int k) col = EMPTY"
    using cells [of "5 - int k"] k by simp
  then have "\<exists>row. 0 \<le> row \<and> row < 6 \<and> cell (c4_board ?t) row col = EMPTY"
    using k by (intro exI [of _ "5 - int k"]) simp
  from c4_makeMove_places [OF col this]
  obtain r where r: "0 \<le> r" "r < 6" and re: "cell (c4_board ?t) r col = EMPTY"
    and below: "\<And>r'. r < r' \<Longrightarrow> r' < 6 \<Longrightarrow> cell (c4_board ?t) r' col \<noteq> EMPTY"
    and eq: "c4_makeMove ?t col =
               ?t\<lparr>c4_board := set_cell (c4_board ?t) r col (c4_currentPlayer ?t),
                  c4_currentPlayer := switchPlayer (c4_currentPlayer ?t)\<rparr>"
    by blast
  have "r < 6 - int k"
  proof (rule ccontr)
    assume "\<not> r < 6 - int k"
    then have "cell (c4_board ?t) r col = ?mark r" using cells [of r] r by simp
    with re mark_ne [of r] show False by simp
  qed
  moreover have "\<not> r < 5 - int k"
  proof
    assume "r < 5 - int k"
    then have "cell (c4_board ?t) (5 - int k) col \<noteq> EMPTY"
      using below [of "5 - int k"] k by simp
    moreover have "cell (c4_board ?t) (5 - int k) col = EMPTY"
      using cells [of "5 - int k"] k by simp
    ultimately show False by simp
  qed
  ultimately have r5: "r = 5 - int k" by simp
  have step: "((\<lambda>t. c4_makeMove t col) ^^ Suc k) s = c4_makeMove ?t col" by simp
  have rd: "cell (set_cell (c4_board ?t) r col (c4_currentPlayer ?t)) row col
              = (if row = r then c4_currentPlayer ?t else cell (c4_board ?t) row col)"
    if "0 \<le> row" for row
    using cell_set_cell [OF okt, of r col row col "c4_currentPlayer ?t"] r col that by simp
  have newp: "c4_currentPlayer ?t = ?mark r"
    using pt r5 by simp
  have "cell (c4_board (c4_makeMove ?t col)) row col
          = (if row \<ge> 6 - int (Suc k) then ?mark row else EMPTY)"
    if "0 \<le> row" "row < 6" for row
  proof (cases "row = r")
    case True
    then show ?thesis using rd [of row] that newp r5 by (simp add: eq)
  next
    case False
    then have "cell (c4_board (c4_makeMove ?t col)) row col = cell (c4_board ?t) row col"
      using rd [of row] that by (simp add: eq)
    then show ?thesis using cells [of row] that False r5 by auto
  qed
  moreover have "board_ok 6 7 (c4_board (c4_makeMove ?t col))"
    using okt by (simp add: eq board_ok_set_cell)
  moreover have "c4_currentPlayer (c4_makeMove ?t col)
                   = (if even (Suc k) then ?p else switchPlayer ?p)"
    using pt switchPlayer_twice [OF pl] by (simp add: eq)
  ultimately show ?case by (simp only: step) blast
qed


text \<open>
  Claim C7. In Connect4, \<open>makeMove(col)\<close> on a column with an empty cell writes
  \<open>currentPlayer\<close> into the lowest empty row of that column (every row below it is
  occupied) and passes the turn; \<open>getAvailableMoves()\<close> is the list of the columns
  \<open>0..6\<close> whose cell in row 0 is empty, in ascending order; and \<open>k \<le> 6\<close> moves into an
  empty column fill its rows \<open>5, 4, \<dots>\<close> upward with the two markers in turn, the
  column staying in \<open>getAvailableMoves()\<close> exactly while \<open>k < 6\<close>.
\<close>

theorem C7_connect4_gravity:
  "(0 \<le> col \<and> col < 7 \<and> (\<exists>row. 0 \<le> row \<and> row < 6 \<and> cell (c4_board s) row col = EMPTY)
    \<longrightarrow> (\<exists>r. 0 \<le> r \<and> r < 6 \<and> cell (c4_board s) r col = EMPTY
            \<and> (\<forall>r'. r < r' \<and> r' < 6 \<longrightarrow> cell (c4_board s) r' col \<noteq> EMPTY)
            \<and> c4_makeMove s col =
                s\<lparr>c4_board := set_cell (c4_board s) r col (c4_currentPlayer s),
                  c4_currentPlayer := switchPlayer (c4_currentPlayer s)\<rparr>))
   \<and> c4_getAvailableMoves s
       = filter (\<lambda>c. cell (c4_board s) 0 c = EMPTY) [0, 1, 2, 3, 4, 5, 6]
   \<and> (board_ok 6 7 (c4_board s) \<and> is_player (c4_currentPlayer s) \<and> 0 \<le> col \<and> col < 7
       \<and> (\<forall>row. 0 \<le> row \<and> row < 6 \<longrightarrow> cell (c4_board s) row col = EMPTY) \<and> k \<le> 6
      \<longrightarrow> (\<forall>row. 0 \<le> row \<and> row < 6 \<longrightarrow>
             cell (c4_board (((\<lambda>t. c4_makeMove t col) ^^ k) s)) row col
               = (if row \<ge> 6 - int k
                  then (if odd row then c4_currentPlayer s else switchPlayer (c4_currentPlayer s))
                  else EMPTY))
          \<and> (col \<in> set (c4_getAvailableMoves (((\<lambda>t. c4_makeMove t col) ^^ k) s)) \<longleftrightarrow> k < 6))"
proof (intro conjI impI)
  assume "0 \<le> col \<and> col < 7 \<and> (\<exists>row. 0 \<le> row \<and> row < 6 \<and> cell (c4_board s) row col = EMPTY)"
  then show "\<exists>r. 0 \<le> r \<and> r < 6 \<and> cell (c4_board s) r col = EMPTY
            \<and> (\<forall>r'. r < r' \<and> r' < 6 \<longrightarrow> cell (c4_board s) r' col \<noteq> EMPTY)
            \<and> c4_makeMove s col =
                s\<lparr>c4_board := set_cell (c4_board s) r col (c4_currentPlayer s),
                  c4_currentPlayer := switchPlayer (c4_currentPlayer s)\<rparr>"
    using c4_makeMove_places [of col s] by blast
next
  show "c4_getAvailableMoves s
       = filter (\<lambda>c. cell (c4_board s) 0 c = EMPTY) [0, 1, 2, 3, 4, 5, 6]"
    by (rule c4_moves_filter)
next
  assume a: "board_ok 6 7 (c4_board s) \<and> is_player (c4_currentPlayer s) \<and> 0 \<le> col \<and> col < 7
       \<and> (\<forall>row. 0 \<le> row \<and> row < 6 \<longrightarrow> cell (c4_board s) row col = EMPTY) \<and> k \<le> 6"
  let ?t = "((\<lambda>t. c4_makeMove t col) ^^ k) s"
  let ?p = "c4_currentPlayer s"
  from a have fill: "\<forall>row. 0 \<le> row \<and> row < 6 \<longrightarrow>
             cell (c4_board ?t) row col
               = (if row \<ge> 6 - int k then (if odd row then ?p else switchPlayer ?p) else EMPTY)"
    using c4_fill_column [of s col k] by blast
  then show "\<forall>row. 0 \<le> row \<and> row < 6 \<longrightarrow>
             cell (c4_board ?t) row col
               = (if row \<ge> 6 - int k then (if odd row then ?p else switchPlayer ?p) else EMPTY)" .
  from a have pl: "is_player ?p" by simp
  have sw: "switchPlayer ?p \<noteq> EMPTY"
    using is_player_nonempty [OF is_player_switch [of ?p]] .
  from fill have top: "cell (c4_board ?t) 0 col = (if k = 6 then switchPlayer ?p else EMPTY)"
    using a by auto
  show "col \<in> set (c4_getAvailableMoves ?t) \<longleftrightarrow> k < 6"
    using a sw by (auto simp add: c4_set_moves top)
qed

theorem C7_connect4_gravity_witness:
  "board_ok 6 7 (c4_board (c4_init True)) \<and> is_player (c4_currentPlayer (c4_init True))
   \<and> map (\<lambda>row. cell (c4_board (c4_init True)) row 2) [0, 1, 2, 3, 4, 5]
       = [EMPTY, EMPTY, EMPTY, EMPTY, EMPTY, EMPTY]
   \<and> cell (c4_board (((\<lambda>t. c4_makeMove t 2) ^^ 6) (c4_init True))) 5 2 = PLAYER
   \<and> cell (c4_board (((\<lambda>t. c4_makeMove t 2) ^^ 6) (c4_init True))) 0 2 = AI
   \<and> 2 \<notin> set (c4_getAvailableMoves (((\<lambda>t. c4_makeMove t 2) ^^ 6) (c4_init True)))
   \<and> c4_getAvailableMoves (c4_init True) = [0, 1, 2, 3, 4, 5, 6]"
proof -
  let ?s = "c4_init True"
  have h1: "board_ok 6 7 (c4_board ?s)"
    by (simp add: c4_init_def board_ok_def BOARD_HEIGHT_def BOARD_LENGTH_def)
  have h2: "is_player (c4_currentPlayer ?s)"
    by (simp add: c4_init_def is_player_def)
  have h3: "\<forall>row. 0 \<le> row \<and> row < 6 \<longrightarrow> cell (c4_board ?s) row 2 = EMPTY"
    by (simp add: c4_init_def cell_replicate BOARD_HEIGHT_def BOARD_LENGTH_def EMPTY_def)
  have h4: "\<forall>c. 0 \<le> c \<and> c < 7 \<longrightarrow> cell (c4_board ?s) 0 c = EMPTY"
    by (simp add: c4_init_def cell_replicate BOARD_HEIGHT_def BOARD_LENGTH_def EMPTY_def)
  have p: "c4_currentPlayer ?s = PLAYER" by (simp add: c4_init_def)
  note c = C7_connect4_gravity [of 2 ?s 6]
  from c h1 h2 h3 have
    fill: "\<forall>row. 0 \<le> row \<and> row < 6 \<longrightarrow>
             cell (c4_board (((\<lambda>t. c4_makeMove t 2) ^^ 6) ?s)) row 2
               = (if row \<ge> 6 - int 6
                  then (if odd row then c4_currentPlayer ?s else switchPlayer (c4_currentPlayer ?s))
                  else EMPTY)"
    and gone: "2 \<notin> set (c4_getAvailableMoves (((\<lambda>t. c4_makeMove t 2) ^^ 6) ?s))"
    and mv: "c4_getAvailableMoves ?s = filter (\<lambda>c. cell (c4_board ?s) 0 c = EMPTY) [0, 1, 2, 3, 4, 5, 6]"
    by simp_all
  from fill have "cell (c4_board (((\<lambda>t. c4_makeMove t 2) ^^ 6) ?s)) 5 2 = PLAYER"
    and "cell (c4_board (((\<lambda>t. c4_makeMove t 2) ^^ 6) ?s)) 0 2 = AI"
    by (simp_all add: p switchPlayer_def)
  moreover have "c4_getAvailableMoves ?s = [0, 1, 2, 3, 4, 5, 6]"
    using h4 by (simp add: mv)
  moreover have "map (\<lambda>row. cell (c4_board ?s) row 2) [0, 1, 2, 3, 4, 5]
                   = [EMPTY, EMPTY, EMPTY, EMPTY, EMPTY, EMPTY]"
    using h3 by simp
  ultimately show ?thesis using h1 h2 gone by simp
qed


section \<open>TicTacToe: winner and terminal states\<close>

lemma upto_0_2: "[0..BOARD_SIZE - 1] = [0, 1, 2]"
  by (simp add: BOARD_SIZE_def upto_rec1)

lemma case_option_if:
  "case_option n f (if c then a else b) = (if c then case_option n f a else case_option n f b)"
  by simp

lemma ttt_getWinner_first_line:
  "ttt_getWinner s =
     (case find (ttt_line_won (ttt_board s)) ttt_lines of
        Some l \<Rightarrow> ttt_line_marker (ttt_board s) l
      | None \<Rightarrow> 0)"
  by (simp add: ttt_getWinner_def upto_0_2 ttt_lines_def Let_def case_option_if
        split del: if_split cong del: if_weak_cong)

lemma ttt_no_moves_iff_full:
  "ttt_getAvailableMoves s = [] \<longleftrightarrow> ttt_board_full (ttt_board s)"
  by (auto simp add: ttt_getAvailableMoves_def ttt_board_full_def BOARD_SIZE_def)

text \<open>
  Claim C9. \<open>TicTacToe::getWinner\<close> returns the marker of a line (row, column or diagonal)
  that holds three equal non-empty markers when there is one (the first in the order rows,
  columns, main diagonal, anti-diagonal) and 0 when there is none; \<open>isTerminal\<close> holds
  exactly when \<open>getWinner\<close> is not 0 or no cell is empty. A top row of three PLAYER marks
  on an otherwise empty board gives PLAYER; a full board without such a line gives winner
  0 and is terminal.
\<close>

theorem C9_tictactoe_winner:
  "ttt_getWinner s =
     (case find (ttt_line_won (ttt_board s)) ttt_lines of
        Some l \<Rightarrow> ttt_line_marker (ttt_board s) l
      | None \<Rightarrow> 0)
   \<and> ((\<exists>l \<in> set ttt_lines. ttt_line_won (ttt_board s) l) \<longrightarrow>
        (\<exists>l \<in> set ttt_lines. ttt_line_won (ttt_board s) l
            \<and> ttt_getWinner s = ttt_line_marker (ttt_board s) l) \<and> ttt_getWinner s \<noteq> 0)
   \<and> ((\<forall>l \<in> set ttt_lines. \<not> ttt_line_won (ttt_board s) l) \<longrightarrow> ttt_getWinner s = 0)
   \<and> (ttt_isTerminal s \<longleftrightarrow> ttt_getWinner s \<noteq> 0 \<or> ttt_board_full (ttt_board s))
   \<and> ttt_getWinner \<lparr>ttt_board = [[PLAYER, PLAYER, PLAYER], [EMPTY, EMPTY, EMPTY], [EMPTY, EMPTY, EMPTY]],
                     ttt_currentPlayer = p\<rparr> = PLAYER
   \<and> (ttt_board_full (ttt_board s) \<and> (\<forall>l \<in> set ttt_lines. \<not> ttt_line_won (ttt_board s) l)
       \<longrightarrow> ttt_getWinner s = 0 \<and> ttt_isTerminal s)"
proof -
  let ?b = "ttt_board s"
  note fl = ttt_getWinner_first_line [of s]
  have won: "(\<exists>l \<in> set ttt_lines. ttt_line_won ?b l \<and> ttt_getWinner s = ttt_line_marker ?b l)
             \<and> ttt_getWinner s \<noteq> 0"
    if "\<exists>l \<in> set ttt_lines. ttt_line_won ?b l"
  proof -
    from that have "find (ttt_line_won ?b) ttt_lines \<noteq> None"
      unfolding find_None_iff by blast
    then obtain l where f: "find (ttt_line_won ?b) ttt_lines = Some l" by blast
    then have l: "l \<in> set ttt_lines" "ttt_line_won ?b l"
      by (auto simp add: find_Some_iff)
    from f have w: "ttt_getWinner s = ttt_line_marker ?b l" by (simp add: fl)
    obtain r1 c1 r2 c2 r3 c3 where "l = ((r1, c1), (r2, c2), (r3, c3))"
      by (metis prod.collapse)
    with l(2) have "ttt_line_marker ?b l \<noteq> 0" by (simp add: EMPTY_def)
    with l w show ?thesis by auto
  qed
  have none: "ttt_getWinner s = 0" if "\<forall>l \<in> set ttt_lines. \<not> ttt_line_won ?b l"
  proof -
    from that have "find (ttt_line_won ?b) ttt_lines = None"
      unfolding find_None_iff by blast
    then show ?thesis by (simp add: fl)
  qed
  have trm: "ttt_isTerminal s \<longleftrightarrow> ttt_getWinner s \<noteq> 0 \<or> ttt_board_full ?b"
    by (simp add: ttt_isTerminal_def ttt_no_moves_iff_full)
  have ex: "ttt_getWinner \<lparr>ttt_board = [[PLAYER, PLAYER, PLAYER], [EMPTY, EMPTY, EMPTY], [EMPTY, EMPTY, EMPTY]],
                     ttt_currentPlayer = p\<rparr> = PLAYER"
    by (simp add: ttt_getWinner_def upto_0_2 cell_def PLAYER_def EMPTY_def)
  from none trm have draw: "ttt_board_full ?b \<and> (\<forall>l \<in> set ttt_lines. \<not> ttt_line_won ?b l)
       \<longrightarrow> ttt_getWinner s = 0 \<and> ttt_isTerminal s"
    by simp
  from won have won': "(\<exists>l \<in> set ttt_lines. ttt_line_won ?b l) \<longrightarrow>
        (\<exists>l \<in> set ttt_lines. ttt_line_won ?b l \<and> ttt_getWinner s = ttt_line_marker ?b l)
        \<and> ttt_getWinner s \<noteq> 0"
    by (rule impI)
  from none have none': "(\<forall>l \<in> set ttt_lines. \<not> ttt_line_won ?b l) \<longrightarrow> ttt_getWinner s = 0"
    by (rule impI)
  show ?thesis
    by (intro conjI) (rule fl won' none' trm ex draw)+
qed

theorem C9_tictactoe_winner_witness:
  "ttt_board_full [[1, - 1, 1], [1, - 1, - 1], [- 1, 1, 1]]
   \<and> filter (ttt_line_won [[1, - 1, 1], [1, - 1, - 1], [- 1, 1, 1]]) ttt_lines = []
   \<and> ttt_getWinner \<lparr>ttt_board = [[1, - 1, 1], [1, - 1, - 1], [- 1, 1, 1]], ttt_currentPlayer = - 1\<rparr> = 0
   \<and> ttt_isTerminal \<lparr>ttt_board = [[1, - 1, 1], [1, - 1, - 1], [- 1, 1, 1]], ttt_currentPlayer = - 1\<rparr>
   \<and> (\<exists>l \<in> set ttt_lines. ttt_line_won [[1, 1, 1], [0, 0, 0], [0, 0, 0]] l)
   \<and> ttt_getWinner \<lparr>ttt_board = [[1, 1, 1], [0, 0, 0], [0, 0, 0]], ttt_currentPlayer = - 1\<rparr> \<noteq> 0"
proof -
  let ?D = "\<lparr>ttt_board = [[1, - 1, 1], [1, - 1, - 1], [- 1, 1, 1]], ttt_currentPlayer = - 1\<rparr>"
  let ?W = "\<lparr>ttt_board = [[1, 1, 1], [0, 0, 0], [0, 0, 0]], ttt_currentPlayer = - 1\<rparr>"
  have full: "ttt_board_full [[1, - 1, 1], [1, - 1, - 1], [- 1, 1, 1]]"
    by code_simp
  have nol: "\<forall>l \<in> set ttt_lines. \<not> ttt_line_won [[1, - 1, 1], [1, - 1, - 1], [- 1, 1, 1]] l"
    by code_simp
  have row: "\<exists>l \<in> set ttt_lines. ttt_line_won [[1, 1, 1], [0, 0, 0], [0, 0, 0]] l"
    by code_simp
  have "ttt_board_full (ttt_board ?D) \<and> (\<forall>l \<in> set ttt_lines. \<not> ttt_line_won (ttt_board ?D) l)
        \<longrightarrow> ttt_getWinner ?D = 0 \<and> ttt_isTerminal ?D"
    using C9_tictactoe_winner [of ?D 1] by (elim conjE)
  with full nol have a: "ttt_getWinner ?D = 0 \<and> ttt_isTerminal ?D" by simp
  have "(\<exists>l \<in> set ttt_lines. ttt_line_won (ttt_board ?W) l) \<longrightarrow>
        (\<exists>l \<in> set ttt_lines. ttt_line_won (ttt_board ?W) l
            \<and> ttt_getWinner ?W = ttt_line_marker (ttt_board ?W) l) \<and> ttt_getWinner ?W \<noteq> 0"
    using C9_tictactoe_winner [of ?W 1] by (elim conjE)
  with row have b: "ttt_getWinner ?W \<noteq> 0" by simp
  from nol have "filter (ttt_line_won [[1, - 1, 1], [1, - 1, - 1], [- 1, 1, 1]]) ttt_lines = []"
    by (simp only: filter_empty_conv)
  with a b full row show ?thesis by simp
qed


section \<open>Connect4: winner\<close>

lemma find_append_first:
  "find P (xs @ ys) = (case find P xs of None \<Rightarrow> find P ys | Some x \<Rightarrow> Some x)"
  by (induction xs) simp_all

lemma find_map_image: "find P (map f xs) = map_option f (find (\<lambda>x. P (f x)) xs)"
  by (induction xs) simp_all

lemma c4_count_is_run:
  "c4_count_loop b row col dr dc 1 1 = 4 \<longleftrightarrow>
     list_all (\<lambda>k. on_board (row + k * dr) (col + k * dc)
                     \<and> cell b (row + k * dr) (col + k * dc) = cell b row col) [1, 2, 3]"
proof -
  let ?A = "\<lambda>k. on_board (row + k * dr) (col + k * dc)
                 \<and> cell b (row + k * dr) (col + k * dc) = cell b row col"
  have c4: "c4_count_loop b row col dr dc 4 4 = 4"
    by (simp add: c4_count_loop.simps [of b row col dr dc 4 4])
  have c3: "c4_count_loop b row col dr dc 3 3 = (if ?A 3 then 4 else 3)"
    by (simp add: c4_count_loop.simps [of b row col dr dc 3 3] c4 on_board_def Let_def)
  have c2: "c4_count_loop b row col dr dc 2 2 = (if ?A 2 then (if ?A 3 then 4 else 3) else 2)"
    by (simp add: c4_count_loop.simps [of b row col dr dc 2 2] c3 on_board_def Let_def)
  have c1: "c4_count_loop b row col dr dc 1 1
              = (if ?A 1 then (if ?A 2 then (if ?A 3 then 4 else 3) else 2) else 1)"
    by (simp add: c4_count_loop.simps [of b row col dr dc 1 1] c2 on_board_def Let_def)
  have "(if P then (if Q then (if R then 4 else 3) else 2) else 1) = (4::int) \<longleftrightarrow> P \<and> Q \<and> R"
    for P Q R by simp
  from this [of "?A 1" "?A 2" "?A 3"]
  have "c4_count_loop b row col dr dc 1 1 = 4 \<longleftrightarrow> ?A 1 \<and> ?A 2 \<and> ?A 3"
    by (simp only: c1)
  also have "(?A 1 \<and> ?A 2 \<and> ?A 3) \<longleftrightarrow> list_all ?A [1, 2, 3]"
    by (simp only: list.pred_inject simp_thms)
  finally show ?thesis .
qed

lemma c4_dirs_loop_find:
  "c4_dirs_loop b row col dirs =
     map_option (\<lambda>d. cell b row col)
       (find (\<lambda>d. c4_count_loop b row col (fst d) (snd d) 1 1 = 4) dirs)"
  by (induction dirs) auto

lemma c4_cols_loop_find:
  "c4_cols_loop b row cols =
     map_option (\<lambda>(r, c, d). cell b r c)
       (find (run4 b) [(row, col, d). col \<leftarrow> cols, d \<leftarrow> directions])"
proof (induction cols)
  case Nil
  show ?case by simp
next
  case (Cons col cols)
  let ?rest = "[(row, col, d). col \<leftarrow> cols, d \<leftarrow> directions]"
  have split: "[(row, c, d). c \<leftarrow> col # cols, d \<leftarrow> directions]
                 = map (\<lambda>d. (row, col, d)) directions @ ?rest"
    by simp
  have r4: "run4 b (row, col, d) =
              (cell b row col \<noteq> 0 \<and> c4_count_loop b row col (fst d) (snd d) 1 1 = 4)" for d
    by (cases d) (simp add: c4_count_is_run)
  show ?case
  proof (cases "cell b row col = 0")
    case True
    then have "find (\<lambda>d. run4 b (row, col, d)) directions = None"
      by (simp add: find_None_iff r4)
    with True Cons.IH show ?thesis
      by (simp only: split find_append_first find_map_image c4_cols_loop.simps) simp
  next
    case False
    then have "find (\<lambda>d. run4 b (row, col, d)) directions
                 = find (\<lambda>d. c4_count_loop b row col (fst d) (snd d) 1 1 = 4) directions"
      by (simp add: r4)
    with False Cons.IH show ?thesis
      by (simp only: split find_append_first find_map_image c4_cols_loop.simps c4_dirs_loop_find)
         (simp split: option.splits)
  qed
qed

lemma c4_rows_loop_find:
  "c4_rows_loop b rows =
     map_option (\<lambda>(r, c, d). cell b r c)
       (find (run4 b) [(row, col, d). row \<leftarrow> rows, col \<leftarrow> [0, 1, 2, 3, 4, 5, 6], d \<leftarrow> directions])"
proof (induction rows)
  case Nil
  show ?case by simp
next
  case (Cons row rows)
  have u: "[0..BOARD_LENGTH - 1] = [0, 1, 2, 3, 4, 5, 6]"
    by (simp add: BOARD_LENGTH_def upto_rec1)
  have split: "[(r, col, d). r \<leftarrow> row # rows, col \<leftarrow> [0, 1, 2, 3, 4, 5, 6], d \<leftarrow> directions]
                 = [(row, col, d). col \<leftarrow> [0, 1, 2, 3, 4, 5, 6], d \<leftarrow> directions]
                   @ [(r, col, d). r \<leftarrow> rows, col \<leftarrow> [0, 1, 2, 3, 4, 5, 6], d \<leftarrow> directions]"
    by simp
  from Cons.IH show ?case
    by (simp only: split find_append_first c4_rows_loop.simps u c4_cols_loop_find)
       (simp split: option.splits)
qed

lemma c4_getWinner_first_run:
  "c4_getWinner s =
     (case find (run4 (c4_board s)) scan_order of
        Some (row, col, d) \<Rightarrow> cell (c4_board s) row col
      | None \<Rightarrow> 0)"
proof -
  have u: "[0..BOARD_HEIGHT - 1] = [0, 1, 2, 3, 4, 5]"
    by (simp add: BOARD_HEIGHT_def upto_rec1)
  have so: "scan_order = [(row, col, d). row \<leftarrow> [0, 1, 2, 3, 4, 5], col \<leftarrow> [0, 1, 2, 3, 4, 5, 6], d \<leftarrow> directions]"
    by (simp only: scan_order_def directions_def)
  show ?thesis
    by (simp only: c4_getWinner_def u c4_rows_loop_find so) (simp split: option.splits)
qed


text \<open>
  Claim C8. \<open>Connect4::getWinner\<close> returns the marker of the start cell of the first run of
  four identical non-empty markers in the scan order (cells in row-major order; for each
  cell the directions right, down, down-right, up-right), and 0 when no cell starts such
  a run. On the board whose only marks are PLAYER at (5,0), (5,1), (5,2), (5,3) it
  returns PLAYER.
\<close>

theorem C8_connect4_winner:
  "c4_getWinner s =
     (case find (run4 (c4_board s)) scan_order of
        Some (row, col, d) \<Rightarrow> cell (c4_board s) row col
      | None \<Rightarrow> 0)
   \<and> c4_getWinner
        \<lparr>c4_board = [[0, 0, 0, 0, 0, 0, 0], [0, 0, 0, 0, 0, 0, 0], [0, 0, 0, 0, 0, 0, 0],
                     [0, 0, 0, 0, 0, 0, 0], [0, 0, 0, 0, 0, 0, 0], [1, 1, 1, 1, 0, 0, 0]],
          c4_currentPlayer = p\<rparr> = PLAYER"
proof
  show "c4_getWinner s =
     (case find (run4 (c4_board s)) scan_order of
        Some (row, col, d) \<Rightarrow> cell (c4_board s) row col
      | None \<Rightarrow> 0)"
    by (rule c4_getWinner_first_run)
  show "c4_getWinner
        \<lparr>c4_board = [[0, 0, 0, 0, 0, 0, 0], [0, 0, 0, 0, 0, 0, 0], [0, 0, 0, 0, 0, 0, 0],
                     [0, 0, 0, 0, 0, 0, 0], [0, 0, 0, 0, 0, 0, 0], [1, 1, 1, 1, 0, 0, 0]],
          c4_currentPlayer = p\<rparr> = PLAYER"
    by code_simp
qed

theorem C8_connect4_winner_witness:
  "find (run4 [[0, 0, 0, 0, 0, 0, 0], [0, 0, 0, 0, 0, 0, 0], [0, 0, 0, 0, 0, 0, 0],
               [0, 0, 0, 0, 0, 0, 0], [0, 0, 0, 0, 0, 0, 0], [- 1, - 1, - 1, - 1, 0, 0, 0]]) scan_order
     = Some (5, 0, 0, 1)
   \<and> c4_getWinner
        \<lparr>c4_board = [[0, 0, 0, 0, 0, 0, 0], [0, 0, 0, 0, 0, 0, 0], [0, 0, 0, 0, 0, 0, 0],
                     [0, 0, 0, 0, 0, 0, 0], [0, 0, 0, 0, 0, 0, 0], [- 1, - 1, - 1, - 1, 0, 0, 0]],
          c4_currentPlayer = 1\<rparr> = AI"
proof -
  let ?B = "[[0, 0, 0, 0, 0, 0, 0], [0, 0, 0, 0, 0, 0, 0], [0, 0, 0, 0, 0, 0, 0],
             [0, 0, 0, 0, 0, 0, 0], [0, 0, 0, 0, 0, 0, 0], [- 1, - 1, - 1, - 1, 0, 0, 0 :: int]]"
  have f: "find (run4 ?B) scan_order = Some (5, 0, 0, 1)"
    by code_simp
  have c: "cell ?B 5 0 = AI"
    by (simp add: cell_def AI_def)
  from C8_connect4_winner [of "\<lparr>c4_board = ?B, c4_currentPlayer = 1\<rparr>" 1] f c
  show ?thesis by simp
qed


section \<open>evaluate and getWinner\<close>

lemma reachable_play:
  "reachable game \<Longrightarrow> legal_play game ms \<Longrightarrow> reachable (foldl makeMove game ms)"
proof (induction ms arbitrary: game)
  case Nil
  then show ?case by simp
next
  case (Cons m ms)
  from Cons.prems have "reachable (makeMove game m)"
    by (simp add: reachable.move)
  with Cons show ?case by simp
qed

lemma cell_marker:
  assumes "board_ok h w b" and "markers_ok b" and "0 \<le> r" "r < int h" "0 \<le> c" "c < int w"
  shows "cell b r c = AI \<or> cell b r c = PLAYER \<or> cell b r c = EMPTY"
proof -
  from assms have lr: "nat r < length b" by (simp add: board_ok_def)
  then have row: "b ! nat r \<in> set b" by simp
  with assms have "nat c < length (b ! nat r)" by (simp add: board_ok_def)
  then have "b ! nat r ! nat c \<in> set (b ! nat r)" by simp
  with row assms(2) show ?thesis
    unfolding markers_ok_def cell_def by blast
qed

lemma ttt_winner_marker:
  assumes ok: "board_ok 3 3 (ttt_board s)" and mk: "markers_ok (ttt_board s)"
  shows "ttt_getWinner s = AI \<or> ttt_getWinner s = PLAYER \<or> ttt_getWinner s = 0"
proof (cases "find (ttt_line_won (ttt_board s)) ttt_lines")
  case None
  then show ?thesis by (simp add: ttt_getWinner_first_line)
next
  case (Some l)
  then have "l \<in> set ttt_lines" by (auto simp add: find_Some_iff)
  then obtain r c l' where l: "l = ((r, c), l')" and rc: "0 \<le> r" "r < 3" "0 \<le> c" "c < 3"
    by (auto simp add: ttt_lines_def)
  from cell_marker [OF ok mk, of r c] rc Some l show ?thesis
    by (simp add: ttt_getWinner_first_line EMPTY_def)
qed

lemma c4_winner_marker:
  assumes ok: "board_ok 6 7 (c4_board s)" and mk: "markers_ok (c4_board s)"
  shows "c4_getWinner s = AI \<or> c4_getWinner s = PLAYER \<or> c4_getWinner s = 0"
proof (cases "find (run4 (c4_board s)) scan_order")
  case None
  then show ?thesis by (simp add: c4_getWinner_first_run)
next
  case (Some x)
  then have "x \<in> set scan_order" by (auto simp add: find_Some_iff)
  then obtain r c d where x: "x = (r, c, d)" and rc: "0 \<le> r" "r < 6" "0 \<le> c" "c < 7"
    by (auto simp add: scan_order_def)
  from cell_marker [OF ok mk, of r c] rc Some x show ?thesis
    by (simp add: c4_getWinner_first_run EMPTY_def)
qed

lemma winner_marker:
  "game_inv game \<Longrightarrow> getWinner game = AI \<or> getWinner game = PLAYER \<or> getWinner game = 0"
proof (cases game)
  case (TicTacToe_game s)
  assume "game_inv game"
  with TicTacToe_game show ?thesis by (simp add: ttt_winner_marker)
next
  case (Connect4_game s)
  assume "game_inv game"
  with Connect4_game show ?thesis by (simp add: c4_winner_marker)
next
  case (SticksGame_game s)
  then show ?thesis by (simp add: stk_getWinner_def)
qed

lemma evaluate_of_winner:
  "evaluate game = (if getWinner game = AI then 10 else if getWinner game = PLAYER then - 10 else 0)"
  by (cases game)
     (simp_all add: ttt_evaluate_def c4_evaluate_def stk_evaluate_def stk_getWinner_def
        Let_def AI_def PLAYER_def)

text \<open>
  Claim C5. For each of the three games and every reachable terminal state, \<open>evaluate()\<close>
  is 10 exactly when \<open>getWinner()\<close> is AI, \<open>-10\<close> exactly when it is PLAYER, and 0
  exactly when it is 0.
\<close>

theorem C5_evaluate_matches_winner:
  assumes "reachable game" and "isTerminal game"
  shows "(evaluate game = 10 \<longleftrightarrow> getWinner game = AI)
       \<and> (evaluate game = - 10 \<longleftrightarrow> getWinner game = PLAYER)
       \<and> (evaluate game = 0 \<longleftrightarrow> getWinner game = 0)"
proof -
  from assms(1) have "game_inv game" by (rule reachable_inv)
  then have "getWinner game = AI \<or> getWinner game = PLAYER \<or> getWinner game = 0"
    by (rule winner_marker)
  then show ?thesis
    by (auto simp add: evaluate_of_winner AI_def PLAYER_def)
qed

theorem C5_evaluate_matches_winner_witness:
  "reachable (foldl makeMove (TicTacToe_game (ttt_init True)) [0, 3, 1, 4, 2])
   \<and> isTerminal (foldl makeMove (TicTacToe_game (ttt_init True)) [0, 3, 1, 4, 2])
   \<and> getWinner (foldl makeMove (TicTacToe_game (ttt_init True)) [0, 3, 1, 4, 2]) = PLAYER
   \<and> evaluate (foldl makeMove (TicTacToe_game (ttt_init True)) [0, 3, 1, 4, 2]) = - 10"
proof -
  let ?g = "foldl makeMove (TicTacToe_game (ttt_init True)) [0, 3, 1, 4, 2]"
  have "legal_play (TicTacToe_game (ttt_init True)) [0, 3, 1, 4, 2]"
    by code_simp
  with reachable.start_TicTacToe have r: "reachable ?g"
    by (rule reachable_play)
  have t: "isTerminal ?g"
    by code_simp
  have w: "getWinner ?g = PLAYER"
    by code_simp
  from C5_evaluate_matches_winner [OF r t] r t w show ?thesis
    by simp
qed


section \<open>The search\<close>

lemma minMax_unfold:
  "minMax game depth isMaximizing =
     (if depth \<ge> maxDepth game \<or> isTerminal game then (evaluate game, game)
      else foldl (minMax_step depth isMaximizing)
             (if isMaximizing then INT_MIN else INT_MAX, game) (getAvailableMoves game))"
proof -
  have "minMax_step depth isMaximizing =
          (\<lambda>(bestScore, g) move.
              (let g1 = makeMove g move;
                   (score, g2) = minMax g1 (depth + 1) (\<not> isMaximizing);
                   g3 = undoMove g2 move
               in (if isMaximizing then max bestScore score else min bestScore score, g3)))"
    by (intro ext) (auto simp add: minMax_step_def split: prod.splits)
  then show ?thesis
    by (subst minMax.simps) simp
qed

lemma foldl_invariant:
  assumes "I a" and "\<And>acc x. x \<in> set xs \<Longrightarrow> I acc \<Longrightarrow> I (f acc x)"
  shows "I (foldl f a xs)"
  using assms by (induction xs arbitrary: a) simp_all

lemma nonterminal_has_moves: "\<not> isTerminal game \<Longrightarrow> getAvailableMoves game \<noteq> []"
proof (cases game)
  case (TicTacToe_game s)
  assume "\<not> isTerminal game"
  with TicTacToe_game show ?thesis by (simp add: ttt_isTerminal_def)
next
  case (Connect4_game s)
  assume "\<not> isTerminal game"
  with Connect4_game show ?thesis by (simp add: c4_isTerminal_def)
next
  case (SticksGame_game s)
  assume "\<not> isTerminal game"
  with SticksGame_game show ?thesis
    by (simp add: stk_isTerminal_def stk_getAvailableMoves_def stk_moves_loop_1)
qed

lemma evaluate_range: "evaluate game \<in> {- 10, 0, 10}"
  by (cases game) (simp_all add: ttt_evaluate_def c4_evaluate_def stk_evaluate_def Let_def)

lemma minMax_step_score:
  "minMax_step depth isMaximizing (bestScore, g) move =
     ((if isMaximizing then max bestScore (fst (minMax (makeMove g move) (depth + 1) (\<not> isMaximizing)))
       else min bestScore (fst (minMax (makeMove g move) (depth + 1) (\<not> isMaximizing)))),
      undoMove (snd (minMax (makeMove g move) (depth + 1) (\<not> isMaximizing))) move)"
  by (simp add: minMax_step_def Let_def split: prod.splits)

lemma minMax_score_range: "fst (minMax game depth isMaximizing) \<in> {- 10, 0, 10}"
proof (induction game depth isMaximizing rule: minMax.induct)
  case (1 game depth isMaximizing)
  show ?case
  proof (cases "depth \<ge> maxDepth game \<or> isTerminal game")
    case True
    then show ?thesis
      using evaluate_range [of game] by (simp add: minMax_unfold)
  next
    case False
    let ?f = "minMax_step depth isMaximizing"
    let ?seed = "if isMaximizing then INT_MIN else INT_MAX"
    from False have "getAvailableMoves game \<noteq> []" by (simp add: nonterminal_has_moves)
    then obtain m ms where mv: "getAvailableMoves game = m # ms"
      by (cases "getAvailableMoves game") auto
    then have mem: "m \<in> set (getAvailableMoves game)" by simp
    have child: "fst (minMax (makeMove g x) (depth + 1) (\<not> isMaximizing)) \<in> {- 10, 0, 10}" for g x
      by (rule "1.IH" [OF False mem refl refl])
    have first: "fst (?f (?seed, game) m) \<in> {- 10, 0, 10}"
      using child [of game m] by (auto simp add: minMax_step_score INT_MIN_def INT_MAX_def)
    have "fst (foldl ?f (?f (?seed, game) m) ms) \<in> {- 10, 0, 10}"
    proof (rule foldl_invariant [where I = "\<lambda>acc. fst acc \<in> {- 10, 0, 10}"])
      show "fst (?f (?seed, game) m) \<in> {- 10, 0, 10}" by (rule first)
    next
      fix acc :: "int \<times> Game" and x
      assume "fst acc \<in> {- 10, 0, 10}"
      then show "fst (?f acc x) \<in> {- 10, 0, 10}"
        using child [of "snd acc" x] by (cases acc) (auto simp add: minMax_step_score)
    qed
    with False show ?thesis
      by (simp add: minMax_unfold mv)
  qed
qed


lemma isConnect4_makeMove: "isConnect4 (makeMove game m) = isConnect4 game"
  by (cases game) simp_all

lemma isConnect4_undoMove: "isConnect4 (undoMove game m) = isConnect4 game"
  by (cases game) simp_all

lemma isConnect4_minMax: "isConnect4 (snd (minMax game depth isMaximizing)) = isConnect4 game"
proof (induction game depth isMaximizing rule: minMax.induct)
  case (1 game depth isMaximizing)
  show ?case
  proof (cases "depth \<ge> maxDepth game \<or> isTerminal game")
    case True
    then show ?thesis by (simp add: minMax_unfold)
  next
    case False
    let ?f = "minMax_step depth isMaximizing"
    let ?seed = "if isMaximizing then INT_MIN else INT_MAX"
    have "isConnect4 (snd (foldl ?f (?seed, game) (getAvailableMoves game))) = isConnect4 game"
    proof (rule foldl_invariant [where I = "\<lambda>acc. isConnect4 (snd acc) = isConnect4 game"])
      show "isConnect4 (snd (?seed, game)) = isConnect4 game" by simp
    next
      fix acc :: "int \<times> Game" and x
      assume x: "x \<in> set (getAvailableMoves game)"
        and acc: "isConnect4 (snd acc) = isConnect4 game"
      have "isConnect4 (snd (minMax (makeMove (snd acc) x) (depth + 1) (\<not> isMaximizing)))
              = isConnect4 (makeMove (snd acc) x)"
        by (rule "1.IH" [OF False x refl refl])
      with acc show "isConnect4 (snd (?f acc x)) = isConnect4 game"
        by (cases acc) (simp add: minMax_step_score isConnect4_makeMove isConnect4_undoMove)
    qed
    with False show ?thesis by (simp add: minMax_unfold)
  qed
qed

lemma isConnect4_foldl_step:
  "isConnect4 (snd (foldl (minMax_step depth isMaximizing) (best, game) ms)) = isConnect4 game"
proof (rule foldl_invariant [where I = "\<lambda>acc. isConnect4 (snd acc) = isConnect4 game"])
  show "isConnect4 (snd (best, game)) = isConnect4 game" by simp
next
  fix acc :: "int \<times> Game" and x
  assume "isConnect4 (snd acc) = isConnect4 game"
  then show "isConnect4 (snd (minMax_step depth isMaximizing acc x)) = isConnect4 game"
    by (cases acc)
       (simp add: minMax_step_score isConnect4_makeMove isConnect4_undoMove isConnect4_minMax)
qed

text \<open>In a state of the reachable shape, \<open>minMax\<close> returns with the object as it found it.\<close>

lemma minMax_restores: "game_inv game \<Longrightarrow> snd (minMax game depth isMaximizing) = game"
proof (induction game depth isMaximizing rule: minMax.induct)
  case (1 game depth isMaximizing)
  show ?case
  proof (cases "depth \<ge> maxDepth game \<or> isTerminal game")
    case True
    then show ?thesis by (simp add: minMax_unfold)
  next
    case False
    let ?f = "minMax_step depth isMaximizing"
    let ?seed = "if isMaximizing then INT_MIN else INT_MAX"
    have "snd (foldl ?f (?seed, game) (getAvailableMoves game)) = game"
    proof (rule foldl_invariant [where I = "\<lambda>acc. snd acc = game"])
      show "snd (?seed, game) = game" by simp
    next
      fix acc :: "int \<times> Game" and x
      assume x: "x \<in> set (getAvailableMoves game)" and acc: "snd acc = game"
      note mv = move_inverse [OF "1.prems" x]
      have "snd (minMax (makeMove game x) (depth + 1) (\<not> isMaximizing)) = makeMove game x"
        using mv(2) by (rule "1.IH" [OF False x refl refl])
      with acc mv(1) show "snd (?f acc x) = game"
        by (cases acc) (simp add: minMax_step_score)
    qed
    with False show ?thesis by (simp add: minMax_unfold)
  qed
qed

text \<open>Along a chain of \<open>n\<close> nested calls the depth grows by \<open>n\<close> and stays below the cutoff.\<close>

lemma minMax_calls_depth:
  "(minMax_calls ^^ n) (game, depth, isMaximizing) (game', depth', isMaximizing') \<Longrightarrow>
   isConnect4 game' = isConnect4 game \<and> depth' = depth + int n
   \<and> (0 < n \<longrightarrow> depth' \<le> maxDepth game)"
proof (induction n arbitrary: game' depth' isMaximizing')
  case 0
  then show ?case by simp
next
  case (Suc n)
  from Suc.prems obtain g1 d1 b1
    where chain: "(minMax_calls ^^ n) (game, depth, isMaximizing) (g1, d1, b1)"
      and last: "minMax_calls (g1, d1, b1) (game', depth', isMaximizing')"
    by auto
  from Suc.IH [OF chain] have k: "isConnect4 g1 = isConnect4 game" and d: "d1 = depth + int n"
    by simp_all
  from last have "isConnect4 game' = isConnect4 g1 \<and> depth' = d1 + 1 \<and> d1 < maxDepth g1"
    by (cases rule: minMax_calls.cases)
       (auto simp add: isConnect4_makeMove isConnect4_foldl_step)
  with k d show ?case by (simp add: maxDepth_def)
qed


text \<open>
  Claim C3. \<open>minMax(game, depth, isMaximizing)\<close> returns \<open>game.evaluate()\<close> (and leaves the
  object unchanged) when \<open>depth\<close> has reached the cutoff, 6 for Connect4 and 999999 for
  TicTacToe and SticksGame, or the state is terminal. Otherwise the move list is not
  empty and the result is the left fold of \<open>minMax_step\<close> (apply the move, recurse with
  \<open>depth + 1\<close> and the flag negated, undo, take the max or the min) over
  \<open>getAvailableMoves()\<close> in order, started from \<open>INT_MIN\<close> when maximizing and \<open>INT_MAX\<close>
  when minimizing; the first iteration replaces that seed by the first child's score.
  For Connect4, a chain of \<open>n\<close> nested recursive calls below a call with \<open>depth \<ge> 0\<close> has
  \<open>n \<le> 6\<close>.
\<close>

theorem C3_minMax:
  "(depth \<ge> maxDepth game \<or> isTerminal game
      \<longrightarrow> minMax game depth isMaximizing = (evaluate game, game))
   \<and> maxDepth (Connect4_game c) = 6
   \<and> maxDepth (TicTacToe_game t) = 999999
   \<and> maxDepth (SticksGame_game k) = 999999
   \<and> (\<not> (depth \<ge> maxDepth game \<or> isTerminal game)
      \<longrightarrow> getAvailableMoves game \<noteq> []
        \<and> minMax game depth isMaximizing
            = foldl (minMax_step depth isMaximizing)
                (if isMaximizing then INT_MIN else INT_MAX, game) (getAvailableMoves game)
        \<and> minMax game depth isMaximizing
            = foldl (minMax_step depth isMaximizing)
                (fst (minMax (makeMove game (hd (getAvailableMoves game))) (depth + 1)
                        (\<not> isMaximizing)),
                 undoMove (snd (minMax (makeMove game (hd (getAvailableMoves game))) (depth + 1)
                                  (\<not> isMaximizing)))
                   (hd (getAvailableMoves game)))
                (tl (getAvailableMoves game)))
   \<and> (isConnect4 game \<and> 0 \<le> depth
        \<and> (minMax_calls ^^ n) (game, depth, isMaximizing) (game', depth', isMaximizing')
      \<longrightarrow> n \<le> 6 \<and> depth' = depth + int n)"
proof (intro conjI impI)
  assume "depth \<ge> maxDepth game \<or> isTerminal game"
  then show "minMax game depth isMaximizing = (evaluate game, game)"
    by (simp add: minMax_unfold)
next
  show "maxDepth (Connect4_game c) = 6" "maxDepth (TicTacToe_game t) = 999999"
    "maxDepth (SticksGame_game k) = 999999"
    by (simp_all add: maxDepth_def)
next
  assume nc: "\<not> (depth \<ge> maxDepth game \<or> isTerminal game)"
  then show ne: "getAvailableMoves game \<noteq> []"
    by (simp add: nonterminal_has_moves)
  from nc show fold: "minMax game depth isMaximizing
            = foldl (minMax_step depth isMaximizing)
                (if isMaximizing then INT_MIN else INT_MAX, game) (getAvailableMoves game)"
    by (simp add: minMax_unfold)
  let ?m = "hd (getAvailableMoves game)"
  let ?child = "minMax (makeMove game ?m) (depth + 1) (\<not> isMaximizing)"
  have "fst ?child \<in> {- 10, 0, 10}" by (rule minMax_score_range)
  then have "minMax_step depth isMaximizing (if isMaximizing then INT_MIN else INT_MAX, game) ?m
               = (fst ?child, undoMove (snd ?child) ?m)"
    by (auto simp add: minMax_step_score INT_MIN_def INT_MAX_def)
  moreover from ne have "getAvailableMoves game = ?m # tl (getAvailableMoves game)"
    by simp
  ultimately show "minMax game depth isMaximizing
            = foldl (minMax_step depth isMaximizing) (fst ?child, undoMove (snd ?child) ?m)
                (tl (getAvailableMoves game))"
    using fold by (metis foldl_Cons)
next
  assume a: "isConnect4 game \<and> 0 \<le> depth
        \<and> (minMax_calls ^^ n) (game, depth, isMaximizing) (game', depth', isMaximizing')"
  then have ch: "(minMax_calls ^^ n) (game, depth, isMaximizing) (game', depth', isMaximizing')"
    by simp
  from minMax_calls_depth [OF ch]
  have d: "depth' = depth + int n" and b: "0 < n \<longrightarrow> depth' \<le> maxDepth game"
    by blast+
  from a have "maxDepth game = 6" by (simp add: maxDepth_def)
  with a d b show "n \<le> 6" by (cases "n = 0") simp_all
  from d show "depth' = depth + int n" .
qed

theorem C3_minMax_witness:
  "isConnect4 (Connect4_game (c4_init True))
   \<and> (minMax_calls ^^ Suc 0) (Connect4_game (c4_init True), 0, True)
        (makeMove (Connect4_game (c4_init True)) 0, 1, False)
   \<and> Suc 0 \<le> 6
   \<and> (6::int) \<ge> maxDepth (Connect4_game (c4_init True))
   \<and> minMax (Connect4_game (c4_init True)) 6 True = (0, Connect4_game (c4_init True))
   \<and> \<not> (0 \<ge> maxDepth (Connect4_game (c4_init True)) \<or> isTerminal (Connect4_game (c4_init True)))
   \<and> getAvailableMoves (Connect4_game (c4_init True)) \<noteq> []"
proof -
  let ?G = "Connect4_game (c4_init True)"
  have k: "isConnect4 ?G" by simp
  have md: "maxDepth ?G = 6" by (simp add: maxDepth_def)
  have nt: "\<not> isTerminal ?G" by code_simp
  have mv: "getAvailableMoves ?G = [0, 1, 2, 3, 4, 5, 6]" by code_simp
  have ev: "evaluate ?G = 0" by code_simp
  have nc: "\<not> (0 \<ge> maxDepth ?G \<or> isTerminal ?G)" using md nt by simp
  have len: "0 < length (getAvailableMoves ?G)" by (simp only: mv) simp
  have "minMax_calls (?G, 0, True)
          (makeMove (snd (foldl (minMax_step 0 True) (if True then INT_MIN else INT_MAX, ?G)
                            (take 0 (getAvailableMoves ?G))))
             (getAvailableMoves ?G ! 0), 0 + 1, \<not> True)"
    by (rule minMax_calls.call [OF nc len refl])
  then have c1: "minMax_calls (?G, 0, True) (makeMove ?G 0, 1, False)"
    by (simp only: mv) simp
  then have chain: "(minMax_calls ^^ Suc 0) (?G, 0, True) (makeMove ?G 0, 1, False)"
    by (auto simp add: relcompp.simps)
  note at6 = C3_minMax [of ?G 6 True "c4_init True" "ttt_init True" "stk_init True"
                          "Suc 0" "makeMove ?G 0" 1 False]
  note at0 = C3_minMax [of ?G 0 True "c4_init True" "ttt_init True" "stk_init True"
                          "Suc 0" "makeMove ?G 0" 1 False]
  from at6 md have cut: "minMax ?G 6 True = (evaluate ?G, ?G)" by simp
  from at0 k chain have "Suc 0 \<le> 6" by simp
  moreover from at0 nc have "getAvailableMoves ?G \<noteq> []" by blast
  ultimately show ?thesis using k chain md cut ev nc by simp
qed


section \<open>getBestMove\<close>

lemma getBestMove_step_score:
  "getBestMove_step (bestScore, bestMove, g) move =
     (if fst (minMax (makeMove g move) 0 False) > bestScore
      then (fst (minMax (makeMove g move) 0 False), move,
            undoMove (snd (minMax (makeMove g move) 0 False)) move)
      else (bestScore, bestMove, undoMove (snd (minMax (makeMove g move) 0 False)) move))"
  by (simp add: getBestMove_step_def Let_def split: prod.splits)

lemma getBestMove_legal:
  assumes "getAvailableMoves game \<noteq> []"
  shows "getBestMove game \<in> set (getAvailableMoves game)"
proof -
  from assms obtain m ms where mv: "getAvailableMoves game = m # ms"
    by (cases "getAvailableMoves game") auto
  let ?I = "\<lambda>acc :: int \<times> int \<times> Game.
              fst acc \<in> {- 10, 0, 10} \<and> fst (snd acc) \<in> set (getAvailableMoves game)"
  have sc: "fst (minMax g 0 False) \<in> {- 10, 0, 10}" for g
    by (rule minMax_score_range)
  have first: "?I (getBestMove_step (INT_MIN, - 1, game) m)"
    using sc [of "makeMove game m"] by (auto simp add: getBestMove_step_score INT_MIN_def mv)
  have "?I (foldl getBestMove_step (getBestMove_step (INT_MIN, - 1, game) m) ms)"
  proof (rule foldl_invariant [where I = ?I])
    show "?I (getBestMove_step (INT_MIN, - 1, game) m)" by (rule first)
  next
    fix acc :: "int \<times> int \<times> Game" and x
    assume "x \<in> set ms" and "?I acc"
    then show "?I (getBestMove_step acc x)"
      using sc [of "makeMove (snd (snd acc)) x"]
      by (cases acc) (auto simp add: getBestMove_step_score mv)
  qed
  then show ?thesis
    by (simp add: getBestMove_def getBestMove_loop_def mv)
qed

lemma getBestMove_step_restores:
  assumes "game_inv game" and "m \<in> set (getAvailableMoves game)"
  shows "getBestMove_step (bestScore, bestMove, game) m =
           (if moveScore game m > bestScore then (moveScore game m, m, game)
            else (bestScore, bestMove, game))"
proof -
  note mv = move_inverse [OF assms]
  have "snd (minMax (makeMove game m) 0 False) = makeMove game m"
    using mv(2) by (rule minMax_restores)
  with mv(1) show ?thesis
    by (simp add: getBestMove_step_score moveScore_def)
qed

lemma getBestMove_fold_restores:
  assumes inv: "game_inv game"
  shows "set ms \<subseteq> set (getAvailableMoves game) \<Longrightarrow>
         foldl getBestMove_step (bs, bm, game) ms =
           (fst (foldl (\<lambda>acc x. if moveScore game x > fst acc then (moveScore game x, x) else acc) (bs, bm) ms),
            snd (foldl (\<lambda>acc x. if moveScore game x > fst acc then (moveScore game x, x) else acc) (bs, bm) ms),
            game)"
proof (induction ms arbitrary: bs bm)
  case Nil
  show ?case by simp
next
  case (Cons m ms)
  then have m: "m \<in> set (getAvailableMoves game)" and ms: "set ms \<subseteq> set (getAvailableMoves game)"
    by simp_all
  show ?case
    by (simp add: getBestMove_step_restores [OF inv m] Cons.IH [OF ms])
qed

lemma getBestMove_prefix_step:
  assumes "n < length (getAvailableMoves game)"
  shows "foldl getBestMove_step (INT_MIN, - 1, game) (take (Suc n) (getAvailableMoves game))
           = getBestMove_step
               (foldl getBestMove_step (INT_MIN, - 1, game) (take n (getAvailableMoves game)))
               (getAvailableMoves game ! n)"
  using assms by (simp add: take_Suc_conv_app_nth)

lemma getBestMove_prefix_first_max:
  assumes "n < length (getAvailableMoves game)"
  shows "\<exists>i\<le>n.
           fst (foldl getBestMove_step (INT_MIN, - 1, game) (take (Suc n) (getAvailableMoves game)))
             = loopScore game i
           \<and> fst (snd (foldl getBestMove_step (INT_MIN, - 1, game)
                          (take (Suc n) (getAvailableMoves game))))
               = getAvailableMoves game ! i
           \<and> (\<forall>j<i. loopScore game j < loopScore game i)
           \<and> (\<forall>j\<le>n. loopScore game j \<le> loopScore game i)"
  using assms
proof (induction n)
  case 0
  have "INT_MIN < loopScore game 0"
    using minMax_score_range [of "makeMove (getBestMove_state game 0) (getAvailableMoves game ! 0)" 0 False]
    by (auto simp add: loopScore_def INT_MIN_def)
  then have "getBestMove_step (INT_MIN, - 1, game) (getAvailableMoves game ! 0)
               = (loopScore game 0, getAvailableMoves game ! 0,
                  undoMove (snd (minMax (makeMove game (getAvailableMoves game ! 0)) 0 False))
                    (getAvailableMoves game ! 0))"
    by (simp add: getBestMove_step_score loopScore_def getBestMove_state_def)
  with 0 show ?case
    by (simp add: getBestMove_prefix_step)
next
  case (Suc n)
  let ?ms = "getAvailableMoves game"
  let ?F = "\<lambda>k. foldl getBestMove_step (INT_MIN, - 1, game) (take k ?ms)"
  from Suc.prems have n: "n < length ?ms" by simp
  from Suc.IH [OF n] obtain i where i: "i \<le> n"
    and bs: "fst (?F (Suc n)) = loopScore game i"
    and bm: "fst (snd (?F (Suc n))) = ?ms ! i"
    and before: "\<forall>j<i. loopScore game j < loopScore game i"
    and all: "\<forall>j\<le>n. loopScore game j \<le> loopScore game i"
    by blast
  have st: "snd (snd (?F (Suc n))) = getBestMove_state game (Suc n)"
    by (simp only: getBestMove_state_def)
  have acc: "?F (Suc n) = (loopScore game i, ?ms ! i, getBestMove_state game (Suc n))"
    using bs bm st by (metis prod.collapse)
  have step: "?F (Suc (Suc n)) = getBestMove_step (?F (Suc n)) (?ms ! Suc n)"
    using Suc.prems by (rule getBestMove_prefix_step)
  have new: "?F (Suc (Suc n)) =
               (if loopScore game (Suc n) > loopScore game i
                then (loopScore game (Suc n), ?ms ! Suc n,
                      undoMove (snd (minMax (makeMove (getBestMove_state game (Suc n)) (?ms ! Suc n))
                                       0 False)) (?ms ! Suc n))
                else (loopScore game i, ?ms ! i,
                      undoMove (snd (minMax (makeMove (getBestMove_state game (Suc n)) (?ms ! Suc n))
                                       0 False)) (?ms ! Suc n)))"
    by (simp only: step acc getBestMove_step_score loopScore_def [of game "Suc n"])
  show ?case
  proof (cases "loopScore game (Suc n) > loopScore game i")
    case True
    have "\<forall>j<Suc n. loopScore game j < loopScore game (Suc n)"
      using all True by (auto simp add: less_Suc_eq_le)
    moreover have "\<forall>j\<le>Suc n. loopScore game j \<le> loopScore game (Suc n)"
      using all True by (auto simp add: le_Suc_eq)
    ultimately show ?thesis
      using True new by (intro exI [of _ "Suc n"]) simp
  next
    case False
    have "\<forall>j\<le>Suc n. loopScore game j \<le> loopScore game i"
      using all False by (auto simp add: le_Suc_eq)
    with before i show ?thesis
      using False new by (intro exI [of _ i]) simp
  qed
qed

lemma getBestMove_first_max_every_state:
  assumes ne: "getAvailableMoves game \<noteq> []"
  shows "\<exists>i<length (getAvailableMoves game).
           getBestMove game = getAvailableMoves game ! i
           \<and> (\<forall>j<i. loopScore game j < loopScore game i)
           \<and> (\<forall>j<length (getAvailableMoves game). loopScore game j \<le> loopScore game i)"
proof -
  let ?ms = "getAvailableMoves game"
  from ne obtain n where n: "length ?ms = Suc n"
    by (cases ?ms) auto
  then have lt: "n < length ?ms" by simp
  from getBestMove_prefix_first_max [OF lt] obtain i where i: "i \<le> n"
    and bm: "fst (snd (foldl getBestMove_step (INT_MIN, - 1, game) (take (Suc n) ?ms))) = ?ms ! i"
    and before: "\<forall>j<i. loopScore game j < loopScore game i"
    and all: "\<forall>j\<le>n. loopScore game j \<le> loopScore game i"
    by blast
  from n have "take (Suc n) ?ms = ?ms" by simp
  with bm have "getBestMove game = ?ms ! i"
    by (simp add: getBestMove_def getBestMove_loop_def)
  moreover from i n have "i < length ?ms" by simp
  moreover from all n have "\<forall>j<length ?ms. loopScore game j \<le> loopScore game i"
    by (simp add: less_Suc_eq_le)
  ultimately show ?thesis using before by blast
qed

lemma getBestMove_state_restored:
  assumes inv: "game_inv game"
  shows "getBestMove_state game i = game"
proof -
  have "set (take i (getAvailableMoves game)) \<subseteq> set (getAvailableMoves game)"
    by (rule set_take_subset)
  from getBestMove_fold_restores [OF inv this, of INT_MIN "- 1"] show ?thesis
    by (simp add: getBestMove_state_def)
qed

lemma loopScore_restored:
  "game_inv game \<Longrightarrow> loopScore game i = moveScore game (getAvailableMoves game ! i)"
  by (simp add: loopScore_def moveScore_def getBestMove_state_restored)

text \<open>
  Claim C4, as the code has it. In every state with at least one available move,
  \<open>getBestMove\<close> returns an element of \<open>getAvailableMoves()\<close>, namely the first move, in the
  order of \<open>getAvailableMoves()\<close>, whose score (apply the move, call
  \<open>minMax(game, 0, false)\<close>, undo) is strictly greater than every earlier move's score and
  not smaller than any move's score, so ties keep the earlier move. The scores are the
  ones the loop computes, \<open>loopScore\<close>; in a reachable state every iteration finds the
  object as it was at the start, so they are the scores \<open>moveScore\<close> of the moves in that
  state. In the sticks game with 4 sticks and the AI to move, the moves 1, 2, 3 have the
  scores \<open>-10\<close>, \<open>-10\<close>, 10 and \<open>getBestMove\<close> returns 3; with 5 sticks and the AI to move
  every move has score \<open>-10\<close> and \<open>getBestMove\<close> still returns a move of
  \<open>getAvailableMoves()\<close>, namely 1.
\<close>

theorem C4_getBestMove:
  "(getAvailableMoves game \<noteq> [] \<longrightarrow>
      getBestMove game \<in> set (getAvailableMoves game)
      \<and> (\<exists>i<length (getAvailableMoves game).
            getBestMove game = getAvailableMoves game ! i
            \<and> (\<forall>j<i. loopScore game j < loopScore game i)
            \<and> (\<forall>j<length (getAvailableMoves game). loopScore game j \<le> loopScore game i)))
   \<and> (reachable game \<longrightarrow>
        (\<forall>i. getBestMove_state game i = game
             \<and> loopScore game i = moveScore game (getAvailableMoves game ! i)))
   \<and> getAvailableMoves (SticksGame_game \<lparr>stk_currentPlayer = AI, remainingSticks = 4\<rparr>) = [1, 2, 3]
   \<and> map (loopScore (SticksGame_game \<lparr>stk_currentPlayer = AI, remainingSticks = 4\<rparr>)) [0, 1, 2]
       = [- 10, - 10, 10]
   \<and> map (moveScore (SticksGame_game \<lparr>stk_currentPlayer = AI, remainingSticks = 4\<rparr>)) [1, 2, 3]
       = [- 10, - 10, 10]
   \<and> getBestMove (SticksGame_game \<lparr>stk_currentPlayer = AI, remainingSticks = 4\<rparr>) = 3
   \<and> getAvailableMoves (SticksGame_game \<lparr>stk_currentPlayer = AI, remainingSticks = 5\<rparr>) = [1, 2, 3]
   \<and> map (loopScore (SticksGame_game \<lparr>stk_currentPlayer = AI, remainingSticks = 5\<rparr>)) [0, 1, 2]
       = [- 10, - 10, - 10]
   \<and> map (moveScore (SticksGame_game \<lparr>stk_currentPlayer = AI, remainingSticks = 5\<rparr>)) [1, 2, 3]
       = [- 10, - 10, - 10]
   \<and> getBestMove (SticksGame_game \<lparr>stk_currentPlayer = AI, remainingSticks = 5\<rparr>) = 1"
proof (intro conjI impI allI)
  assume "getAvailableMoves game \<noteq> []"
  then show "getBestMove game \<in> set (getAvailableMoves game)"
    by (rule getBestMove_legal)
next
  assume "getAvailableMoves game \<noteq> []"
  then show "\<exists>i<length (getAvailableMoves game).
            getBestMove game = getAvailableMoves game ! i
            \<and> (\<forall>j<i. loopScore game j < loopScore game i)
            \<and> (\<forall>j<length (getAvailableMoves game). loopScore game j \<le> loopScore game i)"
    by (rule getBestMove_first_max_every_state)
next
  fix i
  assume "reachable game"
  then have inv: "game_inv game" by (rule reachable_inv)
  show "getBestMove_state game i = game"
    using inv by (rule getBestMove_state_restored)
  show "loopScore game i = moveScore game (getAvailableMoves game ! i)"
    using inv by (rule loopScore_restored)
next
  show "getAvailableMoves (SticksGame_game \<lparr>stk_currentPlayer = AI, remainingSticks = 4\<rparr>) = [1, 2, 3]"
    by code_simp
  show "map (loopScore (SticksGame_game \<lparr>stk_currentPlayer = AI, remainingSticks = 4\<rparr>)) [0, 1, 2]
       = [- 10, - 10, 10]"
    by code_simp
  show "map (moveScore (SticksGame_game \<lparr>stk_currentPlayer = AI, remainingSticks = 4\<rparr>)) [1, 2, 3]
       = [- 10, - 10, 10]"
    by code_simp
  show "getBestMove (SticksGame_game \<lparr>stk_currentPlayer = AI, remainingSticks = 4\<rparr>) = 3"
    by code_simp
  show "getAvailableMoves (SticksGame_game \<lparr>stk_currentPlayer = AI, remainingSticks = 5\<rparr>) = [1, 2, 3]"
    by code_simp
  show "map (loopScore (SticksGame_game \<lparr>stk_currentPlayer = AI, remainingSticks = 5\<rparr>)) [0, 1, 2]
       = [- 10, - 10, - 10]"
    by code_simp
  show "map (moveScore (SticksGame_game \<lparr>stk_currentPlayer = AI, remainingSticks = 5\<rparr>)) [1, 2, 3]
       = [- 10, - 10, - 10]"
    by code_simp
  show "getBestMove (SticksGame_game \<lparr>stk_currentPlayer = AI, remainingSticks = 5\<rparr>) = 1"
    by code_simp
qed

theorem C4_getBestMove_witness:
  "reachable (foldl makeMove (SticksGame_game (stk_init False)) [3, 3, 3, 3, 3, 1])
   \<and> foldl makeMove (SticksGame_game (stk_init False)) [3, 3, 3, 3, 3, 1]
       = SticksGame_game \<lparr>stk_currentPlayer = AI, remainingSticks = 5\<rparr>
   \<and> getAvailableMoves (foldl makeMove (SticksGame_game (stk_init False)) [3, 3, 3, 3, 3, 1]) \<noteq> []
   \<and> getBestMove (foldl makeMove (SticksGame_game (stk_init False)) [3, 3, 3, 3, 3, 1])
       \<in> set (getAvailableMoves (foldl makeMove (SticksGame_game (stk_init False)) [3, 3, 3, 3, 3, 1]))
   \<and> (\<exists>i<length (getAvailableMoves (foldl makeMove (SticksGame_game (stk_init False)) [3, 3, 3, 3, 3, 1])).
         getBestMove (foldl makeMove (SticksGame_game (stk_init False)) [3, 3, 3, 3, 3, 1])
           = getAvailableMoves (foldl makeMove (SticksGame_game (stk_init False)) [3, 3, 3, 3, 3, 1]) ! i)
   \<and> loopScore (foldl makeMove (SticksGame_game (stk_init False)) [3, 3, 3, 3, 3, 1]) 2
       = moveScore (foldl makeMove (SticksGame_game (stk_init False)) [3, 3, 3, 3, 3, 1]) 3"
proof -
  let ?g = "foldl makeMove (SticksGame_game (stk_init False)) [3, 3, 3, 3, 3, 1]"
  have "legal_play (SticksGame_game (stk_init False)) [3, 3, 3, 3, 3, 1]"
    by code_simp
  with reachable.start_SticksGame have r: "reachable ?g"
    by (rule reachable_play)
  have e: "?g = SticksGame_game \<lparr>stk_currentPlayer = AI, remainingSticks = 5\<rparr>"
    by code_simp
  have ne: "getAvailableMoves ?g \<noteq> []"
    by code_simp
  have third: "getAvailableMoves ?g ! 2 = 3"
    by code_simp
  note c = C4_getBestMove [of ?g]
  from c ne have "getBestMove ?g \<in> set (getAvailableMoves ?g)"
    by blast
  moreover from c ne have "\<exists>i<length (getAvailableMoves ?g). getBestMove ?g = getAvailableMoves ?g ! i"
    by blast
  moreover from c r have "loopScore ?g 2 = moveScore ?g (getAvailableMoves ?g ! 2)"
    by blast
  then have "loopScore ?g 2 = moveScore ?g 3"
    by (simp only: third)
  ultimately show ?thesis using r e ne by blast
qed

text \<open>
  Claim C4 as the specification words it supposes that with 4 sticks and the AI to move
  every move loses. On the code, move 3 is available there, its score is 10, and after
  it the only continuation ends with \<open>getWinner\<close> equal to AI.
\<close>

theorem C4_every_move_loses_counterexample:
  "3 \<in> set (getAvailableMoves (SticksGame_game \<lparr>stk_currentPlayer = AI, remainingSticks = 4\<rparr>))
   \<and> moveScore (SticksGame_game \<lparr>stk_currentPlayer = AI, remainingSticks = 4\<rparr>) 3 = 10
   \<and> getAvailableMoves (makeMove (SticksGame_game \<lparr>stk_currentPlayer = AI, remainingSticks = 4\<rparr>) 3) = [1]
   \<and> getWinner (makeMove (makeMove (SticksGame_game \<lparr>stk_currentPlayer = AI, remainingSticks = 4\<rparr>) 3) 1) = AI"
  by code_simp


end
